theory Spec2Isabelle
  imports Complex_Main
begin

section \<open>JavaScript values used by the extension\<close>

text \<open>
  A JavaScript string is a sequence of 16-bit code units; \<open>length\<close>, \<open>substring\<close>
  and the regular expressions of the source all work on code units.  A code unit is
  held as its number (below \<open>2 ^ 16\<close>); the source never computes with one.  A number
  that the source only ever uses as an integer (a length, a byte count, a time value in
  milliseconds, a tab id) is an \<open>int\<close> or a \<open>nat\<close>: every such value stays far below
  \<open>2 ^ 53\<close>, where the doubles of JavaScript are exact.
\<close>

type_synonym jschar = nat
type_synonym jsstring = "jschar list"

definition js :: "string \<Rightarrow> jsstring" where
  "js s = map of_char s"

definition digit_char :: "nat \<Rightarrow> jschar" where
  "digit_char d = 48 + d"

text \<open>\<open>String(n)\<close> for a non-negative integer: its decimal digits.\<close>

function show_nat :: "nat \<Rightarrow> jsstring" where
  "show_nat n = (if n < 10 then [digit_char n] else show_nat (n div 10) @ [digit_char (n mod 10)])"
  by pat_completeness auto
termination
  by (relation "measure id") auto

declare show_nat.simps [simp del]

definition show_int :: "int \<Rightarrow> jsstring" where
  "show_int i = (if i < 0 then js ''-'' @ show_nat (nat (- i)) else show_nat (nat i))"

text \<open>\<open>s.padStart(n, c)\<close> with a one-character pad, \<open>c.repeat(n)\<close> and \<open>xs.join(sep)\<close>.\<close>

definition padStart :: "nat \<Rightarrow> jschar \<Rightarrow> jsstring \<Rightarrow> jsstring" where
  "padStart n c s = replicate (n - length s) c @ s"

definition repeat :: "jschar \<Rightarrow> nat \<Rightarrow> jsstring" where
  "repeat c n = replicate n c"

fun join :: "jsstring \<Rightarrow> jsstring list \<Rightarrow> jsstring" where
  "join sep [] = []"
| "join sep [x] = x"
| "join sep (x # y # ys) = x @ sep @ join sep (y # ys)"

text \<open>
  \<open>Math.round (d / 1000)\<close> for an integer \<open>d\<close>: the quotient is rounded to the nearest
  integer, a tie going up.  The double nearest to \<open>d / 1000\<close> lies on the same side of
  every half-integer as the exact quotient, so the result is the floor of
  \<open>(d + 500) / 1000\<close>.
\<close>

definition round_div_1000 :: "int \<Rightarrow> int" where
  "round_div_1000 d = (d + 500) div 1000"

text \<open>
  \<open>(n / 1024).toFixed(1)\<close> for a byte count \<open>n\<close>: the quotient is an exact double, and
  \<open>toFixed\<close> picks the nearest multiple of one tenth, the larger one on a tie.
\<close>

definition toFixed1_div_1024 :: "nat \<Rightarrow> jsstring" where
  "toFixed1_div_1024 n =
     (let t = (10 * n + 512) div 1024
      in show_nat (t div 10) @ js ''.'' @ show_nat (t mod 10))"

subsection \<open>Dates\<close>

text \<open>
  A \<open>Date\<close> is its time value, the milliseconds since 1970-01-01T00:00:00Z.
  \<open>toISOString\<close> prints it in UTC; the calendar date of a day number is computed in the
  proleptic Gregorian calendar.
\<close>

definition civil_ymd :: "int \<Rightarrow> int \<Rightarrow> int \<Rightarrow> int \<times> int \<times> int" where
  "civil_ymd y m d = (if m \<le> 2 then y + 1 else y, m, d)"

definition civil_from_mp :: "int \<Rightarrow> int \<Rightarrow> int \<Rightarrow> int \<times> int \<times> int" where
  "civil_from_mp y doy mp =
     civil_ymd y (if mp < 10 then mp + 3 else mp - 9) (doy - (153 * mp + 2) div 5 + 1)"

definition civil_from_doy :: "int \<Rightarrow> int \<Rightarrow> int \<times> int \<times> int" where
  "civil_from_doy y doy = civil_from_mp y doy ((5 * doy + 2) div 153)"

definition civil_from_yoe :: "int \<Rightarrow> int \<Rightarrow> int \<Rightarrow> int \<times> int \<times> int" where
  "civil_from_yoe era doe yoe =
     civil_from_doy (yoe + era * 400) (doe - (365 * yoe + yoe div 4 - yoe div 100))"

definition civil_from_doe :: "int \<Rightarrow> int \<Rightarrow> int \<times> int \<times> int" where
  "civil_from_doe era doe =
     civil_from_yoe era doe ((doe - doe div 1460 + doe div 36524 - doe div 146096) div 365)"

definition civil_from_days :: "int \<Rightarrow> int \<times> int \<times> int" where
  "civil_from_days z = civil_from_doe ((z + 719468) div 146097) ((z + 719468) mod 146097)"

definition pad_int :: "nat \<Rightarrow> int \<Rightarrow> jsstring" where
  "pad_int n i = padStart n (of_char CHR ''0'') (show_nat (nat i))"

definition iso_year :: "int \<Rightarrow> jsstring" where
  "iso_year y =
     (if 0 \<le> y \<and> y \<le> 9999 then pad_int 4 y
      else if y < 0 then js ''-'' @ pad_int 6 (- y)
      else js ''+'' @ pad_int 6 y)"

definition iso_date :: "int \<times> int \<times> int \<Rightarrow> jsstring" where
  "iso_date ymd =
     (case ymd of (y, m, d) \<Rightarrow> iso_year y @ js ''-'' @ pad_int 2 m @ js ''-'' @ pad_int 2 d)"

definition iso_time :: "int \<Rightarrow> jsstring" where
  "iso_time ms =
     pad_int 2 (ms div 3600000) @ js '':'' @ pad_int 2 (ms div 60000 mod 60) @ js '':''
     @ pad_int 2 (ms div 1000 mod 60)"

definition toISOString :: "int \<Rightarrow> jsstring" where
  "toISOString t =
     iso_date (civil_from_days (t div 86400000)) @ js ''T'' @ iso_time (t mod 86400000)
     @ js ''.'' @ pad_int 3 (t mod 1000) @ js ''Z''"


definition nl :: jsstring where
  "nl = [0x0A]"

section \<open>Regular expressions\<close>

text \<open>
  The regular expressions of the source use character classes, concatenation,
  repetition (\<open>*\<close>, \<open>+\<close>, \<open>{2}\<close>) and the anchors \<open>^\<close> and \<open>$\<close> at the
  two ends only; none has the \<open>g\<close>, \<open>m\<close> or \<open>u\<close> flag, so \<open>test\<close> keeps no state.
  \<open>RegExp.prototype.test\<close> answers whether some substring matches, which for such
  expressions is membership of the whole string in a regular language.
\<close>

definition is_digit :: "jschar \<Rightarrow> bool" where
  "is_digit c = (0x30 \<le> c \<and> c \<le> 0x39)"

definition is_word :: "jschar \<Rightarrow> bool" where
  "is_word c = ((0x61 \<le> c \<and> c \<le> 0x7A) \<or> (0x41 \<le> c \<and> c \<le> 0x5A) \<or> is_digit c \<or> c = 0x5F)"

text \<open>\<open>\s\<close>: the white space and line terminator code units of ECMAScript.\<close>

definition is_space :: "jschar \<Rightarrow> bool" where
  "is_space c =
     ((0x09 \<le> c \<and> c \<le> 0x0D) \<or> c = 0x20 \<or> c = 0xA0 \<or> c = 0x1680
      \<or> (0x2000 \<le> c \<and> c \<le> 0x200A) \<or> c = 0x2028 \<or> c = 0x2029 \<or> c = 0x202F
      \<or> c = 0x205F \<or> c = 0x3000 \<or> c = 0xFEFF)"

text \<open>
  The items of a character class: one code unit, \<open>\d\<close>, \<open>\w\<close>, \<open>\s\<close>, and \<open>CAny\<close> for
  \<open>[\s\S]\<close>, which every code unit is in.
\<close>

datatype cls = CChar jschar | CDigit | CWord | CSpace | CAny

fun cls_has :: "cls \<Rightarrow> jschar \<Rightarrow> bool" where
  "cls_has (CChar a) c = (c = a)"
| "cls_has CDigit c = is_digit c"
| "cls_has CWord c = is_word c"
| "cls_has CSpace c = is_space c"
| "cls_has CAny c = True"

datatype rx = Fail | Eps | Sym "cls list" | Cat rx rx | Alt rx rx | Star rx

fun nullable :: "rx \<Rightarrow> bool" where
  "nullable Fail = False"
| "nullable Eps = True"
| "nullable (Sym cs) = False"
| "nullable (Cat r s) = (nullable r \<and> nullable s)"
| "nullable (Alt r s) = (nullable r \<or> nullable s)"
| "nullable (Star r) = True"

fun alt :: "rx \<Rightarrow> rx \<Rightarrow> rx" where
  "alt Fail s = s"
| "alt r Fail = r"
| "alt r s = Alt r s"

fun cat :: "rx \<Rightarrow> rx \<Rightarrow> rx" where
  "cat Fail s = Fail"
| "cat r Fail = Fail"
| "cat Eps s = s"
| "cat r s = Cat r s"

fun deriv :: "jschar \<Rightarrow> rx \<Rightarrow> rx" where
  "deriv c Fail = Fail"
| "deriv c Eps = Fail"
| "deriv c (Sym cs) = (if list_ex (\<lambda>k. cls_has k c) cs then Eps else Fail)"
| "deriv c (Cat r s) =
     (if nullable r then alt (cat (deriv c r) s) (deriv c s) else cat (deriv c r) s)"
| "deriv c (Alt r s) = alt (deriv c r) (deriv c s)"
| "deriv c (Star r) = cat (deriv c r) (Star r)"

fun matches :: "rx \<Rightarrow> jsstring \<Rightarrow> bool" where
  "matches r [] = nullable r"
| "matches r (c # cs) = matches (deriv c r) cs"

text \<open>The language of an expression, as the reference for \<open>matches\<close>.\<close>

inductive in_lang :: "rx \<Rightarrow> jsstring \<Rightarrow> bool" where
  in_Eps: "in_lang Eps []"
| in_Sym: "list_ex (\<lambda>k. cls_has k c) cs \<Longrightarrow> in_lang (Sym cs) [c]"
| in_Cat: "in_lang r u \<Longrightarrow> in_lang s v \<Longrightarrow> in_lang (Cat r s) (u @ v)"
| in_AltL: "in_lang r u \<Longrightarrow> in_lang (Alt r s) u"
| in_AltR: "in_lang s u \<Longrightarrow> in_lang (Alt r s) u"
| in_StarNil: "in_lang (Star r) []"
| in_StarStep: "in_lang r u \<Longrightarrow> in_lang (Star r) v \<Longrightarrow> in_lang (Star r) (u @ v)"

text \<open>
  Whether an expression can match a string written with the code units of \<open>A\<close> only.
\<close>

fun matchable_over :: "jschar list \<Rightarrow> rx \<Rightarrow> bool" where
  "matchable_over A Fail = False"
| "matchable_over A Eps = True"
| "matchable_over A (Sym cs) = list_ex (\<lambda>c. list_ex (\<lambda>k. cls_has k c) cs) A"
| "matchable_over A (Cat r s) = (matchable_over A r \<and> matchable_over A s)"
| "matchable_over A (Alt r s) = (matchable_over A r \<or> matchable_over A s)"
| "matchable_over A (Star r) = True"

subsection \<open>Writing the expressions of the source\<close>

definition ch :: "char \<Rightarrow> rx" where
  "ch c = Sym [CChar (of_char c)]"

text \<open>
  A letter under the \<open>i\<close> flag: without the \<open>u\<close> flag two code units match when their
  upper-case forms agree, and no code unit beyond ASCII has an ASCII upper-case form
  that counts, so an ASCII letter matches exactly its two cases.
\<close>

definition chi :: "char \<Rightarrow> rx" where
  "chi c =
     (let k = (of_char c :: jschar)
      in if 0x61 \<le> k \<and> k \<le> 0x7A then Sym [CChar k, CChar (k - 0x20)]
         else if 0x41 \<le> k \<and> k \<le> 0x5A then Sym [CChar k, CChar (k + 0x20)]
         else Sym [CChar k])"

fun seq :: "rx list \<Rightarrow> rx" where
  "seq [] = Eps"
| "seq [r] = r"
| "seq (r # rs) = Cat r (seq rs)"

definition lit :: "string \<Rightarrow> rx" where
  "lit s = seq (map ch s)"

definition lit_i :: "string \<Rightarrow> rx" where
  "lit_i s = seq (map chi s)"

definition one_or_more :: "rx \<Rightarrow> rx" where
  "one_or_more r = Cat r (Star r)"

definition space :: rx where "space = Sym [CSpace]"
definition digit :: rx where "digit = Sym [CDigit]"
definition word :: rx where "word = Sym [CWord]"
definition word_or_dash :: rx where "word_or_dash = Sym [CWord, CChar (of_char CHR ''-'')]"
definition any :: rx where "any = Sym [CAny]"

text \<open>\<open>/^r/\<close>, \<open>/r/\<close> and \<open>/^r$/\<close> as languages of whole strings.\<close>

definition from_start :: "rx \<Rightarrow> rx" where
  "from_start r = Cat r (Star any)"

definition anywhere :: "rx \<Rightarrow> rx" where
  "anywhere r = Cat (Star any) (Cat r (Star any))"

definition test :: "rx \<Rightarrow> jsstring \<Rightarrow> bool" where
  "test r s = matches r s"

section \<open>Capture entries\<close>

text \<open>
  The object a content script sends with a \<open>captureText\<close> message.  Its \<open>timestamp\<close>
  is held as the time value that \<open>new Date (entry.timestamp)\<close> reads back from the ISO
  string which the content script wrote with \<open>toISOString\<close>.
\<close>

datatype source = Initial | Added | TextNode | Modified | Mutation

record entry =
  timestamp :: int
  source :: source
  frameId :: jsstring
  url :: jsstring
  entry_text :: jsstring

section \<open>The content script: text filter and flash relay\<close>

definition MIN_TEXT_LENGTH :: nat where "MIN_TEXT_LENGTH = 10"
definition MAX_TEXT_LENGTH :: nat where "MAX_TEXT_LENGTH = 100000"
definition MAX_IFRAME_DEPTH :: int where "MAX_IFRAME_DEPTH = 10"
definition FLASH_COOLDOWN :: int where "FLASH_COOLDOWN = 500"

definition NOISE_PATTERNS :: "rx list" where
  "NOISE_PATTERNS =
     [from_start (seq [ch CHR ''#'', one_or_more word_or_dash, Star space, ch CHR ''{'']),
      from_start (seq [ch CHR ''.'', one_or_more word_or_dash, Star space, ch CHR ''{'']),
      from_start (seq [lit_i ''@keyframes'', one_or_more space]),
      from_start (seq [lit_i ''@media'', Star space, ch CHR ''('']),
      from_start (seq [lit_i ''@font-face'', Star space, ch CHR ''{'']),
      anywhere (seq [lit_i ''box-sizing:'', Star space, lit_i ''inherit'']),
      anywhere (seq [lit_i ''font-family:'', Star space, lit_i ''inherit'']),
      anywhere (seq [lit ''-webkit-'', one_or_more word_or_dash, ch CHR '':'']),
      seq [Star space, ch CHR ''{'', Star any, ch CHR ''}'', Star space],
      anywhere (lit_i ''w-css-reset''),
      anywhere (lit_i ''wistia_''),
      from_start (seq [one_or_more digit, ch CHR ''%'', Star space, ch CHR ''{'']),
      anywhere (seq [lit ''opacity:'', Star space, digit]),
      anywhere (seq [lit_i ''animation:'', Star space, one_or_more word_or_dash]),
      anywhere (seq [lit_i ''transform:'', Star space, one_or_more word]),
      anywhere (lit_i ''base64,''),
      anywhere (lit_i ''data:application/''),
      anywhere (lit_i ''data:image/''),
      anywhere (seq [lit_i ''unicode-range:'', Star space, lit_i ''U+'']),
      anywhere (lit_i ''font-feature-settings:''),
      anywhere (seq [lit_i ''src:'', Star space, lit_i ''url(''])]"

text \<open>
  The filters for the indicator's own text: \<open>/^\d+$/\<close>, \<open>/^\d{2}:\d{2}$/\<close> and
  \<open>/^ACC\s*\d*/\<close>.
\<close>

definition INDICATOR_PATTERNS :: "rx list" where
  "INDICATOR_PATTERNS =
     [one_or_more digit,
      seq [digit, digit, ch CHR '':'', digit, digit],
      from_start (seq [lit ''ACC'', Star space, Star digit])]"

text \<open>
  \<open>cleanText\<close>: every maximal run of white space becomes one space, the zero-width
  marks are removed, and the ends are trimmed.
\<close>

function collapse_ws :: "jsstring \<Rightarrow> jsstring" where
  "collapse_ws [] = []"
| "collapse_ws (c # cs) =
     (if is_space c then 0x20 # collapse_ws (dropWhile is_space cs) else c # collapse_ws cs)"
  by pat_completeness auto
termination
  by (relation "measure length") (auto simp: length_dropWhile_le le_imp_less_Suc)

definition is_zero_width :: "jschar \<Rightarrow> bool" where
  "is_zero_width c = ((0x200B \<le> c \<and> c \<le> 0x200D) \<or> c = 0xFEFF)"

definition trim :: "jsstring \<Rightarrow> jsstring" where
  "trim s = rev (dropWhile is_space (rev (dropWhile is_space s)))"

definition cleanText :: "jsstring \<Rightarrow> jsstring" where
  "cleanText t = trim (filter (\<lambda>c. \<not> is_zero_width c) (collapse_ws t))"

text \<open>
  The variables and the surroundings of one frame's content script that the text
  filter and the flash relay read: \<open>iframes\<close> lists the \<open>iframe\<close> elements of the
  document, each with its content window.
\<close>

record frame =
  isTopFrame :: bool
  frame_isCapturing :: bool
  seenText :: "jsstring set"
  pathname :: jsstring
  href :: jsstring
  iframes :: "(nat \<times> nat) list"
  iframeFlashCooldowns :: "nat \<Rightarrow> int option"

datatype cs_effect =
    SendCaptureText entry
  | PostFlashToParent int
  | CreateBorderOverlay nat

definition strip_extension :: "jsstring \<Rightarrow> jsstring" where
  "strip_extension f =
     (let ext = rev (takeWhile (\<lambda>c. c \<noteq> of_char CHR ''.'') (rev f))
      in if of_char CHR ''.'' \<in> set f \<and> ext \<noteq> [] then take (length f - length ext - 1) f
         else f)"

definition getFrameId :: "frame \<Rightarrow> jsstring" where
  "getFrameId fr =
     (if isTopFrame fr then js ''main''
      else
        let filename = rev (takeWhile (\<lambda>c. c \<noteq> of_char CHR ''/'') (rev (pathname fr)))
        in strip_extension (if filename = [] then js ''frame'' else filename))"

definition triggerFlashUpward :: "frame \<Rightarrow> cs_effect list" where
  "triggerFlashUpward fr = (if isTopFrame fr then [] else [PostFlashToParent 1])"

definition truncation_marker :: jsstring where
  "truncation_marker = js '' [too long to capture]''"

definition truncate_text :: "jsstring \<Rightarrow> jsstring" where
  "truncate_text cleaned =
     (if length cleaned > MAX_TEXT_LENGTH then take MAX_TEXT_LENGTH cleaned @ truncation_marker
      else cleaned)"

definition is_special :: "jschar \<Rightarrow> bool" where
  "is_special c =
     (c = of_char CHR ''{'' \<or> c = of_char CHR ''}'' \<or> c = of_char CHR '';'' \<or> c = of_char CHR '':'')"

text \<open>
  \<open>processText\<close>.  The comparison \<open>specialChars / totalChars > 0.1\<close> is on doubles; for
  the lengths that reach it (at most 100022) the quotient is further from one tenth
  than a double can blur, so it is the comparison \<open>10 * specialChars > totalChars\<close>.
\<close>

definition processText :: "jsstring \<Rightarrow> source \<Rightarrow> int \<Rightarrow> frame \<Rightarrow> frame \<times> cs_effect list" where
  "processText txt src now_ms fr =
     (let cleaned = truncate_text (cleanText txt) in
      if length cleaned < MIN_TEXT_LENGTH then (fr, [])
      else if list_ex (\<lambda>p. test p cleaned) INDICATOR_PATTERNS \<or> cleaned = js ''ACC''
      then (fr, [])
      else if list_ex (\<lambda>p. test p cleaned) NOISE_PATTERNS then (fr, [])
      else if 10 * length (filter is_special cleaned) > length cleaned then (fr, [])
      else
        let hash = take 100 cleaned @ show_nat (length cleaned) in
        if hash \<in> seenText fr then (fr, [])
        else
          (fr\<lparr>seenText := insert hash (seenText fr)\<rparr>,
           SendCaptureText
             \<lparr>timestamp = now_ms, source = src, frameId = getFrameId fr, url = href fr,
              entry_text = cleaned\<rparr>
           # (if \<not> isTopFrame fr then triggerFlashUpward fr else [])))"

subsection \<open>The flash relay\<close>

definition findIframeForWindow :: "frame \<Rightarrow> nat \<Rightarrow> nat option" where
  "findIframeForWindow fr sourceWindow =
     map_option fst (find (\<lambda>(el, win). win = sourceWindow) (iframes fr))"

definition flashIframeBorder :: "nat \<Rightarrow> int \<Rightarrow> frame \<Rightarrow> frame \<times> cs_effect list" where
  "flashIframeBorder iframe now_ms fr =
     (if \<not> frame_isCapturing fr then (fr, [])
      else
        let lastFlash = (case iframeFlashCooldowns fr iframe of Some t \<Rightarrow> t | None \<Rightarrow> 0) in
        if now_ms - lastFlash < FLASH_COOLDOWN then (fr, [])
        else
          (fr\<lparr>iframeFlashCooldowns := (iframeFlashCooldowns fr)(iframe \<mapsto> now_ms)\<rparr>,
           [CreateBorderOverlay iframe]))"

definition handleChildFlashMessage :: "nat \<Rightarrow> int \<Rightarrow> int \<Rightarrow> frame \<Rightarrow> frame \<times> cs_effect list" where
  "handleChildFlashMessage sourceWindow depth now_ms fr =
     (if depth > MAX_IFRAME_DEPTH then (fr, [])
      else
        (case (case findIframeForWindow fr sourceWindow of
                 Some iframe \<Rightarrow> flashIframeBorder iframe now_ms fr
               | None \<Rightarrow> (fr, [])) of
           (fr1, effs) \<Rightarrow>
             (fr1, effs @ (if \<not> isTopFrame fr then [PostFlashToParent (depth + 1)] else []))))"

text \<open>
  The \<open>message\<close> listener of the window, for a message of type \<open>ACC_FLASH_IFRAME\<close>:
  \<open>event.data.depth || 1\<close> reads a missing or zero depth as 1.
\<close>

definition onFlashMessage :: "nat \<Rightarrow> int option \<Rightarrow> int \<Rightarrow> frame \<Rightarrow> frame \<times> cs_effect list" where
  "onFlashMessage sourceWindow depth now_ms fr =
     (if frame_isCapturing fr
      then handleChildFlashMessage sourceWindow
             (case depth of Some d \<Rightarrow> if d = 0 then 1 else d | None \<Rightarrow> 1) now_ms fr
      else (fr, []))"

section \<open>The background script: the session aggregator\<close>

text \<open>
  The bundle keeps the background script after the content script in one file.  Its
  global variables are the fields of \<open>bg_state\<close>; every handler takes the state and
  returns the new state with the list of calls it made to the browser, in order.
\<close>

record bg_state =
  isCapturing :: bool
  captureStartTime :: "int option"
  capturedText :: "entry list"
  seenHashes :: "jsstring set"
  activeTabId :: "int option"
  currentCaptureSize :: nat

datatype directive =
    Start jsstring "nat option"
  | Stop
  | UpdateCount nat
  | AutoStopped jsstring

datatype bg_effect =
    SetBadgeText jsstring int
  | SetBadgeBackgroundColor jsstring int
  | StateChanged bool
  | TabsSendMessage int directive
  | Download jsstring jsstring bool
  | DownloadUrl jsstring jsstring bool

datatype js_error = TypeError

text \<open>
  The clock of one handler run: \<open>now\<close> is what \<open>new Date ()\<close> reads, \<open>tz_offset\<close> the
  offset of the local time zone in milliseconds (\<open>toTimeString\<close> prints local time).
\<close>

record clock =
  now :: int
  tz_offset :: int

definition MAX_CAPTURE_SIZE :: nat where
  "MAX_CAPTURE_SIZE = 10 * 1024 * 1024"

definition initial_state :: bg_state where
  "initial_state =
     \<lparr>isCapturing = False, captureStartTime = None, capturedText = [], seenHashes = {},
      activeTabId = None, currentCaptureSize = 0\<rparr>"

definition getTodayDate :: "clock \<Rightarrow> jsstring" where
  "getTodayDate clk = takeWhile (\<lambda>c. c \<noteq> of_char CHR ''T'') (toISOString (now clk))"

definition generateFilename :: "clock \<Rightarrow> jsstring" where
  "generateFilename clk =
     js ''ACC-'' @ getTodayDate clk @ js ''/''
     @ map (\<lambda>c. if c = of_char CHR '':'' then of_char CHR ''-'' else c)
         (iso_time ((now clk + tz_offset clk) mod 86400000))
     @ js ''_capture.txt''"

definition generateImageFilename :: "clock \<Rightarrow> jsstring \<Rightarrow> jsstring" where
  "generateImageFilename clk originalFilename =
     js ''ACC-'' @ getTodayDate clk @ js ''/'' @ originalFilename"

definition header :: "int \<Rightarrow> int \<Rightarrow> nat \<Rightarrow> nat \<Rightarrow> jsstring" where
  "header start endTime n bytes =
     join nl
       [repeat 0x2550 60,
        js ''ADRIAN'S COURSE CAPTURE'',
        repeat 0x2550 60,
        [],
        js ''Started:  '' @ toISOString start,
        js ''Ended:    '' @ toISOString endTime,
        js ''Duration: '' @ show_int (round_div_1000 (endTime - start)) @ js '' seconds'',
        js ''Entries:  '' @ show_nat n,
        js ''Size:     '' @ toFixed1_div_1024 bytes @ js '' KB'',
        [],
        repeat 0x2500 60,
        []]"

definition format_entry :: "int \<Rightarrow> nat \<Rightarrow> entry \<Rightarrow> jsstring" where
  "format_entry start i e =
     join nl
       [js ''['' @ padStart 3 (of_char CHR ''0'') (show_nat (i + 1)) @ js ''] +''
          @ show_int (round_div_1000 (timestamp e - start)) @ js ''s | '' @ frameId e
          @ js '' | '' @ url e,
        entry_text e,
        []]"

definition formatOutput :: "int \<Rightarrow> bg_state \<Rightarrow> js_error + jsstring" where
  "formatOutput endTime s =
     (case captureStartTime s of
        None \<Rightarrow> Inl TypeError
      | Some start \<Rightarrow>
          Inr (header start endTime (length (capturedText s)) (currentCaptureSize s)
               @ join nl (map (\<lambda>(i, e). format_entry start i e)
                            (enumerate 0 (capturedText s)))))"

definition saveCapture :: "clock \<Rightarrow> bg_state \<Rightarrow> js_error + bg_effect list" where
  "saveCapture clk s =
     (case formatOutput (now clk) s of
        Inl err \<Rightarrow> Inl err
      | Inr content \<Rightarrow>
          Inr (if content \<noteq> [] \<and> length (capturedText s) > 0
               then [Download content (generateFilename clk) True]
               else []))"

text \<open>
  \<open>startCapture\<close>, \<open>stopCapture\<close> and \<open>autoStopCapture\<close> are \<open>async\<close> functions.  A call
  runs the body up to its first \<open>await\<close> and returns; the rest runs in a later turn of
  the event loop, when the awaited message to the tab has settled (whether it was
  delivered or not), and other handlers may run in between.  A handler therefore
  returns, with the new state and its calls to the browser, the continuations it left
  pending.  Nothing but logging follows the \<open>await\<close> of \<open>startCapture\<close>.
\<close>

datatype continuation = AfterAutoStopNotice | AfterStopNotice

type_synonym outcome = "bg_state \<times> bg_effect list \<times> continuation list"

definition startCapture :: "int \<Rightarrow> clock \<Rightarrow> bg_state \<Rightarrow> outcome" where
  "startCapture tabId clk s =
     (if isCapturing s then (s, [], [])
      else
        (s\<lparr>isCapturing := True, captureStartTime := Some (now clk), capturedText := [],
           seenHashes := {}, currentCaptureSize := 0, activeTabId := Some tabId\<rparr>,
         [SetBadgeText (js ''REC'') tabId,
          SetBadgeBackgroundColor (js ''#e74c3c'') tabId,
          StateChanged True,
          TabsSendMessage tabId (Start (toISOString (now clk)) None)],
         []))"

definition reset_state :: "bg_state \<Rightarrow> bg_state" where
  "reset_state s =
     s\<lparr>capturedText := [], seenHashes := {}, currentCaptureSize := 0, activeTabId := None\<rparr>"

text \<open>
  The part of \<open>stopCapture\<close> after its \<open>await\<close>: save if there is an entry, then reset.
  An exception out of \<open>saveCapture\<close> would leave the function before the reset.
\<close>

definition stopCapture_finish :: "clock \<Rightarrow> bg_state \<Rightarrow> bg_state \<times> bg_effect list" where
  "stopCapture_finish clk s =
     (if length (capturedText s) > 0
      then (case saveCapture clk s of
              Inl err \<Rightarrow> (s, [])
            | Inr effs \<Rightarrow> (reset_state s, effs))
      else (reset_state s, []))"

text \<open>
  \<open>if (activeTabId)\<close> takes a tab id of \<open>null\<close> or 0 as false; the \<open>await\<close> is inside that
  branch, so without a tab the function runs through to the reset at once.
\<close>

definition stopCapture :: "clock \<Rightarrow> bg_state \<Rightarrow> outcome" where
  "stopCapture clk s =
     (if \<not> isCapturing s then (s, [], [])
      else
        let s1 = s\<lparr>isCapturing := False\<rparr> in
        (case activeTabId s of
           Some t \<Rightarrow>
             if t \<noteq> 0
             then (s1, [StateChanged False, SetBadgeText [] t, TabsSendMessage t Stop],
                   [AfterStopNotice])
             else (case stopCapture_finish clk s1 of
                     (s2, effs) \<Rightarrow> (s2, StateChanged False # effs, []))
         | None \<Rightarrow>
             (case stopCapture_finish clk s1 of
                (s2, effs) \<Rightarrow> (s2, StateChanged False # effs, []))))"

definition autoStopCapture :: "jsstring \<Rightarrow> clock \<Rightarrow> bg_state \<Rightarrow> outcome" where
  "autoStopCapture reason clk s =
     (case activeTabId s of
        Some t \<Rightarrow>
          if t \<noteq> 0 then (s, [TabsSendMessage t (AutoStopped reason)], [AfterAutoStopNotice])
          else stopCapture clk s
      | None \<Rightarrow> stopCapture clk s)"

definition resume :: "continuation \<Rightarrow> clock \<Rightarrow> bg_state \<Rightarrow> outcome" where
  "resume k clk s =
     (case k of
        AfterAutoStopNotice \<Rightarrow> stopCapture clk s
      | AfterStopNotice \<Rightarrow> (case stopCapture_finish clk s of (s1, effs) \<Rightarrow> (s1, effs, [])))"

subsection \<open>The message handlers\<close>

text \<open>
  The sender of a message is the id of the tab it came from, \<open>None\<close> for the popup
  (\<open>sender.tab\<close> is undefined there).
\<close>

record state_response =
  resp_isCapturing :: bool
  startTime :: "jsstring option"
  entryCount :: nat

definition getState :: "int option \<Rightarrow> bg_state \<Rightarrow> state_response" where
  "getState sender s =
     (case sender of
        None \<Rightarrow>
          \<lparr>resp_isCapturing = isCapturing s,
           startTime = map_option toISOString (captureStartTime s),
           entryCount = length (capturedText s)\<rparr>
      | Some tab \<Rightarrow>
          \<lparr>resp_isCapturing = (isCapturing s \<and> Some tab = activeTabId s),
           startTime = map_option toISOString (captureStartTime s),
           entryCount = length (capturedText s)\<rparr>)"

definition toggleCapture :: "int \<Rightarrow> clock \<Rightarrow> bg_state \<Rightarrow> outcome" where
  "toggleCapture tabId clk s =
     (if \<not> isCapturing s then startCapture tabId clk s else stopCapture clk s)"

text \<open>The deduplication key: \<open>entry.text.substring (0, 100) + entry.text.length\<close>.\<close>

definition fingerprint :: "jsstring \<Rightarrow> jsstring" where
  "fingerprint t = take 100 t @ show_nat (length t)"

definition size_limit_reason :: jsstring where
  "size_limit_reason =
     js ''Size limit reached ('' @ show_nat (MAX_CAPTURE_SIZE div 1024 div 1024) @ js ''MB)''"

definition captureText :: "clock \<Rightarrow> int option \<Rightarrow> entry \<Rightarrow> bg_state \<Rightarrow> outcome" where
  "captureText clk sender e s =
     (if \<not> isCapturing s then (s, [], [])
      else if sender = None \<or> sender \<noteq> activeTabId s then (s, [], [])
      else
        let hash = fingerprint (entry_text e) in
        if hash \<in> seenHashes s then (s, [], [])
        else
          let s1 = s\<lparr>seenHashes := insert hash (seenHashes s)\<rparr>;
              entrySize = length (entry_text e) * 2
          in
            if currentCaptureSize s1 + entrySize > MAX_CAPTURE_SIZE
            then autoStopCapture size_limit_reason clk s1
            else
              let s2 = s1\<lparr>currentCaptureSize := currentCaptureSize s1 + entrySize,
                          capturedText := capturedText s1 @ [e]\<rparr>
              in (s2,
                  (case sender of
                     Some tab \<Rightarrow> [TabsSendMessage tab (UpdateCount (length (capturedText s2)))]
                   | None \<Rightarrow> []),
                  []))"

definition saveImage :: "clock \<Rightarrow> jsstring \<Rightarrow> jsstring \<Rightarrow> bg_effect list" where
  "saveImage clk imageUrl filename =
     [DownloadUrl imageUrl (generateImageFilename clk filename) False]"

text \<open>The listener of \<open>browser.tabs.onRemoved\<close>: closing the bound tab stops the session.\<close>

definition onTabRemoved :: "int \<Rightarrow> clock \<Rightarrow> bg_state \<Rightarrow> outcome" where
  "onTabRemoved tabId clk s =
     (if isCapturing s \<and> Some tabId = activeTabId s then stopCapture clk s else (s, [], []))"

subsection \<open>The event loop\<close>

text \<open>
  The aggregator with its pending continuations.  An event is one turn of the event
  loop that touches the state: a \<open>captureText\<close> message, a toggle (the \<open>toggleCapture\<close>
  message of the popup, or the keyboard command, which does the same with the id of the
  active tab), the removal of a tab, or the turn in which one of the pending
  continuations runs, \<open>Resume clk i\<close> for the one at position \<open>i\<close> (the awaited messages
  may settle in any order).  The other listeners read the state and do not change it.
\<close>

datatype event =
    Submit clock "int option" entry
  | Toggle clock int
  | TabRemoved clock int
  | Resume clock nat

fun step :: "event \<Rightarrow> bg_state \<times> continuation list \<Rightarrow> bg_state \<times> continuation list" where
  "step (Submit clk sender e) (s, ks) =
     (case captureText clk sender e s of (s1, effs, ks1) \<Rightarrow> (s1, ks @ ks1))"
| "step (Toggle clk tabId) (s, ks) =
     (case toggleCapture tabId clk s of (s1, effs, ks1) \<Rightarrow> (s1, ks @ ks1))"
| "step (TabRemoved clk tabId) (s, ks) =
     (case onTabRemoved tabId clk s of (s1, effs, ks1) \<Rightarrow> (s1, ks @ ks1))"
| "step (Resume clk i) (s, ks) =
     (if i < length ks
      then (case resume (ks ! i) clk s of
              (s1, effs, ks1) \<Rightarrow> (s1, take i ks @ drop (Suc i) ks @ ks1))
      else (s, ks))"

fun run :: "event list \<Rightarrow> bg_state \<times> continuation list \<Rightarrow> bg_state \<times> continuation list" where
  "run [] c = c"
| "run (ev # evs) c = run evs (step ev c)"



text \<open>
  A handler run to completion: its pending continuations run one after the other with
  no other handler in between.  A continuation of \<open>autoStopCapture\<close> leaves at most the
  one of \<open>stopCapture\<close> behind, and that one leaves none.
\<close>

fun weight :: "continuation \<Rightarrow> nat" where
  "weight AfterAutoStopNotice = 2"
| "weight AfterStopNotice = 1"

function drain :: "clock \<Rightarrow> bg_state \<Rightarrow> continuation list \<Rightarrow> bg_state \<times> bg_effect list" where
  "drain clk s [] = (s, [])"
| "drain clk s (k # ks) =
     (case resume k clk s of
        (s1, effs, ks1) \<Rightarrow>
          (case drain clk s1 (ks @ ks1) of (s2, effs2) \<Rightarrow> (s2, effs @ effs2)))"
  by pat_completeness auto
termination
  by (relation "measure (\<lambda>(clk, s, ks). sum_list (map weight ks))")
     (auto simp: resume_def stopCapture_def Let_def
       split: continuation.splits if_splits option.splits prod.splits)

definition settle :: "clock \<Rightarrow> outcome \<Rightarrow> bg_state \<times> bg_effect list" where
  "settle clk r =
     (case r of (s, effs, ks) \<Rightarrow> (case drain clk s ks of (s1, effs1) \<Rightarrow> (s1, effs @ effs1)))"

text \<open>
  What every state of the aggregator satisfies, whatever the order of its handlers and
  continuations: a session that records or holds entries has a start time, every
  retained entry has its fingerprint in the index, no two retained entries share one,
  and the running size is the sum of the entries' costs, within the budget.
\<close>

definition consistent :: "bg_state \<Rightarrow> bool" where
  "consistent s =
     ((isCapturing s \<or> capturedText s \<noteq> [] \<longrightarrow> captureStartTime s \<noteq> None)
      \<and> (\<forall>x \<in> set (capturedText s). fingerprint (entry_text x) \<in> seenHashes s)
      \<and> distinct (map (\<lambda>x. fingerprint (entry_text x)) (capturedText s))
      \<and> currentCaptureSize s = sum_list (map (\<lambda>x. length (entry_text x) * 2) (capturedText s))
      \<and> currentCaptureSize s \<le> MAX_CAPTURE_SIZE)"

subsection \<open>Notions used to state the properties\<close>

text \<open>
  The notices that \<open>stopCapture\<close> and \<open>autoStopCapture\<close> send to the bound tab.
\<close>

definition stop_notices :: "bg_state \<Rightarrow> bg_effect list" where
  "stop_notices s =
     (case activeTabId s of
        Some t \<Rightarrow> if t \<noteq> 0 then [SetBadgeText [] t, TabsSendMessage t Stop] else []
      | None \<Rightarrow> [])"

definition auto_stop_notice :: "bg_state \<Rightarrow> bg_effect list" where
  "auto_stop_notice s =
     (case activeTabId s of
        Some t \<Rightarrow> if t \<noteq> 0 then [TabsSendMessage t (AutoStopped size_limit_reason)] else []
      | None \<Rightarrow> [])"

text \<open>
  A session is started cleanly when no continuation of \<open>stopCapture\<close> is pending at that
  moment: a toggle either meets a recording aggregator (and stops it) or finds the last
  stop completed.  A run is free of the race between start and stop when every session
  in it is started cleanly.
\<close>

definition starts_cleanly :: "event \<Rightarrow> bg_state \<times> continuation list \<Rightarrow> bool" where
  "starts_cleanly ev c =
     (case ev of
        Toggle clk tabId \<Rightarrow> isCapturing (fst c) \<or> AfterStopNotice \<notin> set (snd c)
      | _ \<Rightarrow> True)"

fun race_free :: "event list \<Rightarrow> bg_state \<times> continuation list \<Rightarrow> bool" where
  "race_free [] c = True"
| "race_free (ev # evs) c = (starts_cleanly ev c \<and> race_free evs (step ev c))"




text \<open>
  What holds of the aggregator and its pending continuations throughout a run that is
  free of the race: the state is consistent; a recording session has a tab bound;
  while a continuation of \<open>stopCapture\<close> is pending the session has stopped, and there
  is one such continuation at most; and a stopped aggregator with no such continuation
  pending has size zero.
\<close>

definition orderly :: "bg_state \<times> continuation list \<Rightarrow> bool" where
  "orderly c =
     (consistent (fst c)
      \<and> (isCapturing (fst c) \<longrightarrow> activeTabId (fst c) \<noteq> None)
      \<and> (AfterStopNotice \<in> set (snd c) \<longrightarrow> \<not> isCapturing (fst c))
      \<and> count_list (snd c) AfterStopNotice \<le> 1
      \<and> (\<not> isCapturing (fst c) \<and> AfterStopNotice \<notin> set (snd c)
           \<longrightarrow> currentCaptureSize (fst c) = 0))"

section \<open>The output format in the words of the specification\<close>

text \<open>
  The document as the specification describes it, to compare \<open>formatOutput\<close> with: a
  header block of eleven lines, then for each entry a tag line
  \<open>[ordinal] +offset s | frameId | url\<close> and the text as it is, with a blank line between
  two entries.  The ordinal counts from 1 and has at least three digits; the offset is
  the time since the start in seconds, rounded to the nearest integer (a half goes up,
  as \<open>round\<close> does).
\<close>

definition text_lines :: "jsstring list \<Rightarrow> jsstring" where
  "text_lines ls = concat (map (\<lambda>l. l @ nl) ls)"

definition spec_ordinal :: "nat \<Rightarrow> jsstring" where
  "spec_ordinal k =
     (if k < 10 then js ''00'' @ show_nat k
      else if k < 100 then js ''0'' @ show_nat k
      else show_nat k)"

definition spec_seconds :: "int \<Rightarrow> int" where
  "spec_seconds ms = round (real_of_int ms / 1000)"

definition spec_tag_line :: "int \<Rightarrow> nat \<Rightarrow> entry \<Rightarrow> jsstring" where
  "spec_tag_line start k e =
     js ''['' @ spec_ordinal k @ js ''] +'' @ show_int (spec_seconds (timestamp e - start))
     @ js ''s | '' @ frameId e @ js '' | '' @ url e"

fun spec_entries :: "int \<Rightarrow> nat \<Rightarrow> entry list \<Rightarrow> jsstring" where
  "spec_entries start k [] = []"
| "spec_entries start k [e] = spec_tag_line start k e @ nl @ entry_text e @ nl"
| "spec_entries start k (e # e' # es) =
     spec_tag_line start k e @ nl @ entry_text e @ nl @ nl @ spec_entries start (Suc k) (e' # es)"

definition spec_header :: "int \<Rightarrow> int \<Rightarrow> nat \<Rightarrow> nat \<Rightarrow> jsstring" where
  "spec_header start endTime n bytes =
     text_lines
       [repeat 0x2550 60,
        js ''ADRIAN'S COURSE CAPTURE'',
        repeat 0x2550 60,
        [],
        js ''Started:  '' @ toISOString start,
        js ''Ended:    '' @ toISOString endTime,
        js ''Duration: '' @ show_int (spec_seconds (endTime - start)) @ js '' seconds'',
        js ''Entries:  '' @ show_nat n,
        js ''Size:     '' @ toFixed1_div_1024 bytes @ js '' KB'',
        [],
        repeat 0x2500 60]"

section \<open>Example inputs\<close>

text \<open>A nested frame that records; its document holds one \<open>iframe\<close>, whose window is 5.\<close>

definition nested_frame :: frame where
  "nested_frame =
     \<lparr>isTopFrame = False, frame_isCapturing = True, seenText = {},
      pathname = js ''/embed/player.html'', href = js ''https://example.com/embed/player.html'',
      iframes = [(0, 5)], iframeFlashCooldowns = Map.empty\<rparr>"

text \<open>
  The top frame of a page, and raw texts as they come out of the document.
\<close>

definition top_frame :: frame where
  "top_frame =
     \<lparr>isTopFrame = True, frame_isCapturing = True, seenText = {},
      pathname = js ''/course'', href = js ''https://example.com/course'',
      iframes = [(0, 5)], iframeFlashCooldowns = Map.empty\<rparr>"

definition raw_hello_text :: jsstring where
  "raw_hello_text = js ''  Hello world,   this is a test paragraph. ''"

definition keyframes_text :: jsstring where
  "keyframes_text = js '' @keyframes accPulse { 0%, 100% { opacity: 1; } 50% { opacity: 0.6; } } ''"

text \<open>
  Two texts longer than the maximum of 100000 characters once cleaned: 100001 letters,
  and 100000 letters followed by \<open>wistia_\<close>.  \<open>kept_long_entry\<close> is the entry the top
  frame makes of either.
\<close>

definition too_long_text :: jsstring where
  "too_long_text = replicate 100001 97"

definition noisy_long_text :: jsstring where
  "noisy_long_text = replicate 100000 97 @ js ''wistia_''"

definition kept_long_entry :: entry where
  "kept_long_entry =
     \<lparr>timestamp = 1737387045123, source = Initial, frameId = js ''main'',
      url = js ''https://example.com/course'',
      entry_text = replicate 100000 97 @ js '' [too long to capture]''\<rparr>"

text \<open>
  A session started on tab 7 at 2025-01-20T15:30:45.123Z and stopped 85333 ms later, in
  a time zone one hour ahead of UTC; the paragraph of the specification's scenario as
  the top frame and as a nested frame send it, and two more entries.
\<close>

definition clk_start :: clock where
  "clk_start = \<lparr>now = 1737387045123, tz_offset = 3600000\<rparr>"

definition clk_stop :: clock where
  "clk_stop = \<lparr>now = 1737387130456, tz_offset = 3600000\<rparr>"




definition empty_session :: bg_state where
  "empty_session = fst (startCapture 7 clk_start initial_state)"

definition hello_entry :: entry where
  "hello_entry =
     \<lparr>timestamp = 1737387045123, source = Initial, frameId = js ''main'',
      url = js ''https://example.com'',
      entry_text = js ''Hello world, this is a test paragraph.''\<rparr>"

definition hello_frame_entry :: entry where
  "hello_frame_entry =
     \<lparr>timestamp = 1737387047623, source = Added, frameId = js ''player'',
      url = js ''https://example.com/embed/player.html'',
      entry_text = js ''Hello world, this is a test paragraph.''\<rparr>"

definition second_entry :: entry where
  "second_entry =
     \<lparr>timestamp = 1737387047623, source = Added, frameId = js ''player'',
      url = js ''https://example.com/embed/player.html'',
      entry_text = js ''Second paragraph: braces { } stay as they are.''\<rparr>"

definition third_entry :: entry where
  "third_entry =
     \<lparr>timestamp = 1737387106622, source = Modified, frameId = js ''main'',
      url = js ''https://example.com'',
      entry_text = js ''Third paragraph <b>with markup</b> & more.''\<rparr>"

definition hello_session :: bg_state where
  "hello_session =
     \<lparr>isCapturing = True, captureStartTime = Some 1737387045123, capturedText = [hello_entry],
      seenHashes = {js ''Hello world, this is a test paragraph.38''},
      activeTabId = Some 7, currentCaptureSize = 76\<rparr>"

definition three_entry_session :: bg_state where
  "three_entry_session =
     \<lparr>isCapturing = True, captureStartTime = Some 1737387045123,
      capturedText = [hello_entry, second_entry, third_entry],
      seenHashes =
        {js ''Hello world, this is a test paragraph.38'',
         js ''Second paragraph: braces { } stay as they are.46'',
         js ''Third paragraph <b>with markup</b> & more.42''},
      activeTabId = Some 7, currentCaptureSize = 252\<rparr>"


definition three_entry_document :: jsstring where
  "three_entry_document =
     text_lines
       [repeat 0x2550 60,
        js ''ADRIAN'S COURSE CAPTURE'',
        repeat 0x2550 60,
        js '''',
        js ''Started:  2025-01-20T15:30:45.123Z'',
        js ''Ended:    2025-01-20T15:32:10.456Z'',
        js ''Duration: 85 seconds'',
        js ''Entries:  3'',
        js ''Size:     0.2 KB'',
        js '''',
        repeat 0x2500 60,
        js ''[001] +0s | main | https://example.com'',
        js ''Hello world, this is a test paragraph.'',
        js '''',
        js ''[002] +3s | player | https://example.com/embed/player.html'',
        js ''Second paragraph: braces { } stay as they are.'',
        js '''',
        js ''[003] +61s | main | https://example.com'',
        js ''Third paragraph <b>with markup</b> & more.'']"

text \<open>
  A session on tab 7 that holds 52 long entries, 88412 bytes below the budget, and an
  entry of 100000 bytes that arrives next.
\<close>

definition long_entry :: "nat \<Rightarrow> entry" where
  "long_entry i =
     \<lparr>timestamp = 1737387045123 + 1000 * int i, source = Added, frameId = js ''main'',
      url = js ''https://example.com/course'', entry_text = replicate (100000 - i) 97\<rparr>"

definition full_session :: bg_state where
  "full_session =
     fst (run (map (\<lambda>i. Submit clk_start (Some 7) (long_entry i)) [0..<52]) (empty_session, []))"

definition late_entry :: entry where
  "late_entry =
     \<lparr>timestamp = 1737387129000, source = Added, frameId = js ''main'',
      url = js ''https://example.com/course'', entry_text = replicate 50000 98\<rparr>"

section \<open>The regular expression matcher is correct\<close>

inductive_simps in_lang_Fail [simp]: "in_lang Fail w"
inductive_simps in_lang_Eps [simp]: "in_lang Eps w"
inductive_simps in_lang_Sym [simp]: "in_lang (Sym cs) w"
inductive_simps in_lang_Cat: "in_lang (Cat r s) w"
inductive_simps in_lang_Alt [simp]: "in_lang (Alt r s) w"

lemma nullable_iff: "nullable r \<longleftrightarrow> in_lang r []"
  by (induction r) (auto simp: in_lang_Cat intro: in_lang.intros)

lemma in_lang_alt [simp]: "in_lang (alt r s) w \<longleftrightarrow> in_lang r w \<or> in_lang s w"
  by (induction r s rule: alt.induct) auto

lemma in_lang_cat [simp]: "in_lang (cat r s) w \<longleftrightarrow> in_lang (Cat r s) w"
  by (induction r s rule: cat.induct) (auto simp: in_lang_Cat)

lemma star_cons_split:
  assumes "in_lang (Star r) (c # w)"
  shows "\<exists>u v. w = u @ v \<and> in_lang r (c # u) \<and> in_lang (Star r) v"
  using assms
proof (induction "Star r" "c # w" arbitrary: w rule: in_lang.induct)
  case (in_StarStep u v)
  show ?case
  proof (cases u)
    case Nil
    with in_StarStep.hyps(4) in_StarStep.hyps(5) show ?thesis by simp
  next
    case (Cons a u')
    with in_StarStep.hyps(1,3,5) show ?thesis by auto
  qed
qed

lemma deriv_iff: "in_lang (deriv c r) w \<longleftrightarrow> in_lang r (c # w)"
proof (induction r arbitrary: w)
  case (Cat r s)
  show ?case
  proof
    assume "in_lang (deriv c (Cat r s)) w"
    then consider (left) u v where "w = u @ v" "in_lang (deriv c r) u" "in_lang s v"
      | (right) "nullable r" "in_lang (deriv c s) w"
      by (auto simp: in_lang_Cat split: if_splits)
    then show "in_lang (Cat r s) (c # w)"
    proof cases
      case left
      then have "in_lang (Cat r s) ((c # u) @ v)"
        using Cat.IH(1) by (intro in_Cat) auto
      with left show ?thesis by simp
    next
      case right
      then have "in_lang (Cat r s) ([] @ c # w)"
        using Cat.IH(2) nullable_iff by (intro in_Cat) auto
      then show ?thesis by simp
    qed
  next
    assume "in_lang (Cat r s) (c # w)"
    then obtain u v where uv: "c # w = u @ v" "in_lang r u" "in_lang s v"
      by (auto simp: in_lang_Cat)
    show "in_lang (deriv c (Cat r s)) w"
    proof (cases u)
      case Nil
      with uv show ?thesis
        using Cat.IH(2) nullable_iff by auto
    next
      case (Cons a u')
      with uv have "in_lang (Cat (deriv c r) s) w"
        using Cat.IH(1) by (auto simp: in_lang_Cat)
      then show ?thesis by simp
    qed
  qed
next
  case (Star r)
  show ?case
  proof
    assume "in_lang (deriv c (Star r)) w"
    then obtain u v where "w = u @ v" "in_lang (deriv c r) u" "in_lang (Star r) v"
      by (auto simp: in_lang_Cat)
    then have "in_lang (Star r) ((c # u) @ v)"
      using Star.IH by (intro in_StarStep) auto
    then show "in_lang (Star r) (c # w)"
      using \<open>w = u @ v\<close> by simp
  next
    assume "in_lang (Star r) (c # w)"
    then obtain u v where "w = u @ v" "in_lang r (c # u)" "in_lang (Star r) v"
      using star_cons_split by blast
    then show "in_lang (deriv c (Star r)) w"
      using Star.IH by (auto simp: in_lang_Cat)
  qed
qed auto

lemma matches_iff: "matches r w \<longleftrightarrow> in_lang r w"
  by (induction w arbitrary: r) (auto simp: nullable_iff deriv_iff)

lemma matchable_over_sound:
  "in_lang r w \<Longrightarrow> set w \<subseteq> set A \<Longrightarrow> matchable_over A r"
  by (induction rule: in_lang.induct) (auto simp: list_ex_iff)

section \<open>Evaluating on concrete inputs\<close>

text \<open>
  \<open>show_nat\<close> recurses under an \<open>if\<close>; on a numeral its equation is safe to unfold.
\<close>

lemma show_nat_numeral:
  "show_nat (numeral k) =
     (if (numeral k :: nat) < 10 then [digit_char (numeral k)]
      else show_nat (numeral k div 10) @ [digit_char (numeral k mod 10)])"
  by (rule show_nat.simps)

lemma show_nat_0: "show_nat 0 = [digit_char 0]"
  by (simp add: show_nat.simps)

lemma show_nat_1: "show_nat (Suc 0) = [digit_char 1]"
  by (simp add: show_nat.simps)

lemma Suc_Suc_0: "Suc (Suc 0) = 2"
  by simp

lemmas show_nat_eval = show_nat_numeral show_nat_0 show_nat_1 digit_char_def Suc_Suc_0

lemma replicate_numeral: "replicate (numeral k) c = c # replicate (pred_numeral k) c"
  by (simp add: numeral_eq_Suc)

lemmas date_eval = toISOString_def iso_date_def iso_time_def civil_from_days_def
  civil_from_doe_def civil_from_yoe_def civil_from_doy_def civil_from_mp_def civil_ymd_def
  iso_year_def pad_int_def


lemmas rx_eval = test_def NOISE_PATTERNS_def INDICATOR_PATTERNS_def from_start_def anywhere_def
  lit_def lit_i_def chi_def ch_def one_or_more_def space_def digit_def word_def word_or_dash_def
  any_def is_space_def is_digit_def is_word_def

lemmas clean_eval = cleanText_def trim_def is_space_def is_zero_width_def

section \<open>The flash relay\<close>

text \<open>
  Claim C5.  A flash signal whose hop counter is above the maximum depth of 10 is
  dropped by the frame that receives it: the frame's state is unchanged, no border
  overlay is made and nothing is posted to the parent frame.  This holds for the
  handler and for the window's message listener in front of it.
\<close>

theorem relay_depth_bound:
  assumes "depth > MAX_IFRAME_DEPTH"
  shows "handleChildFlashMessage sourceWindow depth now_ms fr = (fr, [])
         \<and> onFlashMessage sourceWindow (Some depth) now_ms fr = (fr, [])"
  using assms
  by (simp add: handleChildFlashMessage_def onFlashMessage_def MAX_IFRAME_DEPTH_def)

text \<open>
  At depth 11 the nested example frame does nothing, although at depth 10 the same
  signal flashes the \<open>iframe\<close> and goes on to the parent with depth 11.
\<close>

theorem relay_depth_bound_witness:
  "(11::int) > MAX_IFRAME_DEPTH
   \<and> handleChildFlashMessage 5 11 1000 nested_frame = (nested_frame, [])
   \<and> onFlashMessage 5 (Some 11) 1000 nested_frame = (nested_frame, [])
   \<and> snd (onFlashMessage 5 (Some 10) 1000 nested_frame)
       = [CreateBorderOverlay 0, PostFlashToParent 11]"
proof -
  have h: "(11::int) > MAX_IFRAME_DEPTH"
    by (simp add: MAX_IFRAME_DEPTH_def)
  have "snd (onFlashMessage 5 (Some 10) 1000 nested_frame)
          = [CreateBorderOverlay 0, PostFlashToParent 11]"
    by (simp add: onFlashMessage_def handleChildFlashMessage_def flashIframeBorder_def
        findIframeForWindow_def nested_frame_def MAX_IFRAME_DEPTH_def FLASH_COOLDOWN_def)
  with h relay_depth_bound [OF h, of 5 1000 nested_frame] show ?thesis
    by simp
qed

section \<open>The text filter\<close>

lemma test_iff: "test r w \<longleftrightarrow> in_lang r w"
  by (simp add: test_def matches_iff)

lemma not_test_over:
  "set w \<subseteq> set A \<Longrightarrow> \<not> list_ex (matchable_over A) ps \<Longrightarrow> \<not> list_ex (\<lambda>p. test p w) ps"
  by (auto simp: list_ex_iff test_iff dest: matchable_over_sound)

lemma in_lang_star_any: "in_lang (Star any) w"
proof (induction w)
  case Nil
  show ?case by (rule in_StarNil)
next
  case (Cons c w)
  have "in_lang any [c]"
    by (simp add: any_def)
  from in_StarStep [OF this Cons] show ?case by simp
qed

lemma test_anywhere:
  "in_lang r v \<Longrightarrow> test (anywhere r) (u @ v @ w)"
  unfolding test_iff anywhere_def
  by (intro in_Cat in_lang_star_any)

subsection \<open>Cleaning text that has no white space\<close>

lemma collapse_ws_id: "\<forall>c \<in> set s. \<not> is_space c \<Longrightarrow> collapse_ws s = s"
  by (induction s) auto

lemma dropWhile_none: "\<forall>c \<in> set s. \<not> P c \<Longrightarrow> dropWhile P s = s"
  by (cases s) auto

lemma cleanText_id:
  assumes "\<forall>c \<in> set s. \<not> is_space c \<and> \<not> is_zero_width c"
  shows "cleanText s = s"
proof -
  from assms have "collapse_ws s = s"
    by (simp add: collapse_ws_id)
  moreover from assms have "filter (\<lambda>c. \<not> is_zero_width c) s = s"
    by (simp add: filter_id_conv)
  moreover from assms have "trim s = s"
    by (simp add: trim_def dropWhile_none)
  ultimately show ?thesis
    by (simp add: cleanText_def)
qed

lemma letters_clean: "cleanText (replicate n 97 @ js ''wistia_'') = replicate n 97 @ js ''wistia_''"
  by (rule cleanText_id) (auto simp: is_space_def is_zero_width_def js_def)

lemma letter_run_clean: "cleanText (replicate n 97) = replicate n 97"
  by (rule cleanText_id) (auto simp: is_space_def is_zero_width_def)

subsection \<open>Texts that pass the filter\<close>

lemma processText_accepts:
  assumes "truncate_text (cleanText txt) = c" and "MIN_TEXT_LENGTH \<le> length c"
    and "\<not> list_ex (\<lambda>p. test p c) INDICATOR_PATTERNS" and "c \<noteq> js ''ACC''"
    and "\<not> list_ex (\<lambda>p. test p c) NOISE_PATTERNS"
    and "10 * length (filter is_special c) \<le> length c"
    and "take 100 c @ show_nat (length c) \<notin> seenText fr"
  shows "processText txt src now_ms fr =
           (fr\<lparr>seenText := insert (take 100 c @ show_nat (length c)) (seenText fr)\<rparr>,
            SendCaptureText
              \<lparr>timestamp = now_ms, source = src, frameId = getFrameId fr, url = href fr,
               entry_text = c\<rparr>
            # (if \<not> isTopFrame fr then triggerFlashUpward fr else []))"
  using assms by (simp add: processText_def Let_def)

lemma marker_alphabet:
  "set (replicate 100000 97 @ truncation_marker)
     \<subseteq> set [97, 32, 91, 116, 111, 108, 110, 103, 99, 112, 117, 114, 101, 93]"
  by (simp add: truncation_marker_def js_def)

lemma long_text_kept:
  assumes clean: "cleanText txt = replicate 100000 97 @ r" and r: "r \<noteq> []"
  shows "processText txt Initial 1737387045123 top_frame =
           (top_frame\<lparr>seenText := {replicate 100 97 @ js ''100022''}\<rparr>,
            [SendCaptureText kept_long_entry])"
proof -
  let ?c = "replicate 100000 97 @ truncation_marker"
  let ?A = "[97, 32, 91, 116, 111, 108, 110, 103, 99, 112, 117, 114, 101, 93] :: jschar list"
  from r have "length r > 0" by simp
  then have t: "truncate_text (cleanText txt) = ?c"
    by (simp add: truncate_text_def clean MAX_TEXT_LENGTH_def)
  have len: "length ?c = 100022"
    by (simp add: truncation_marker_def js_def)
  have min: "MIN_TEXT_LENGTH \<le> length ?c"
    by (simp add: len MIN_TEXT_LENGTH_def)
  have "\<not> list_ex (matchable_over ?A) INDICATOR_PATTERNS"
    by (simp add: rx_eval)
  with marker_alphabet have ind: "\<not> list_ex (\<lambda>p. test p ?c) INDICATOR_PATTERNS"
    by (rule not_test_over)
  have "\<not> list_ex (matchable_over ?A) NOISE_PATTERNS"
    by (simp add: rx_eval)
  with marker_alphabet have noise: "\<not> list_ex (\<lambda>p. test p ?c) NOISE_PATTERNS"
    by (rule not_test_over)
  have acc: "?c \<noteq> js ''ACC''"
  proof
    assume "?c = js ''ACC''"
    then have "length ?c = length (js ''ACC'')"
      by (rule arg_cong)
    with len show False
      by (simp add: js_def)
  qed
  have "filter is_special ?c = []"
    by (simp add: is_special_def truncation_marker_def js_def)
  then have special: "10 * length (filter is_special ?c) \<le> length ?c"
    by simp
  have hash: "take 100 ?c @ show_nat (length ?c) = replicate 100 97 @ js ''100022''"
    unfolding len by (simp add: show_nat_eval js_def)
  have new: "take 100 ?c @ show_nat (length ?c) \<notin> seenText top_frame"
    by (simp add: top_frame_def)
  from processText_accepts [OF t min ind acc noise special new, of Initial 1737387045123]
  show ?thesis
    unfolding hash
    by (simp add: top_frame_def getFrameId_def kept_long_entry_def truncation_marker_def)
qed

lemma raw_hello_clean: "cleanText raw_hello_text = js ''Hello world, this is a test paragraph.''"
  by (simp add: raw_hello_text_def clean_eval js_def)

lemma raw_hello_processed:
  "processText raw_hello_text Added 1737387047623 nested_frame =
     (nested_frame\<lparr>seenText := {js ''Hello world, this is a test paragraph.38''}\<rparr>,
      [SendCaptureText hello_frame_entry, PostFlashToParent 1])"
proof -
  let ?c = "js ''Hello world, this is a test paragraph.''"
  have len: "length ?c = 38"
    by (simp add: js_def)
  have t: "truncate_text (cleanText raw_hello_text) = ?c"
    by (simp add: raw_hello_clean truncate_text_def len MAX_TEXT_LENGTH_def)
  have min: "MIN_TEXT_LENGTH \<le> length ?c"
    by (simp add: len MIN_TEXT_LENGTH_def)
  have "\<not> list_ex (matchable_over ?c) INDICATOR_PATTERNS"
    by (simp add: rx_eval js_def)
  then have ind: "\<not> list_ex (\<lambda>p. test p ?c) INDICATOR_PATTERNS"
    by (rule not_test_over [OF subset_refl])
  have "\<not> list_ex (matchable_over ?c) NOISE_PATTERNS"
    by (simp add: rx_eval js_def)
  then have noise: "\<not> list_ex (\<lambda>p. test p ?c) NOISE_PATTERNS"
    by (rule not_test_over [OF subset_refl])
  have acc: "?c \<noteq> js ''ACC''"
    by (simp add: js_def)
  have special: "10 * length (filter is_special ?c) \<le> length ?c"
    by (simp add: is_special_def js_def)
  have hash: "take 100 ?c @ show_nat (length ?c) = js ''Hello world, this is a test paragraph.38''"
    unfolding len by (simp add: show_nat_eval js_def)
  have new: "take 100 ?c @ show_nat (length ?c) \<notin> seenText nested_frame"
    by (simp add: nested_frame_def)
  have fid: "getFrameId nested_frame = js ''player''"
    by (simp add: getFrameId_def nested_frame_def strip_extension_def js_def Let_def)
  from processText_accepts [OF t min ind acc noise special new, of Added 1737387047623]
  show ?thesis
    unfolding hash fid
    by (simp add: nested_frame_def hello_frame_entry_def triggerFlashUpward_def)
qed

lemma keyframes_clean:
  "cleanText keyframes_text
     = js ''@keyframes accPulse { 0%, 100% { opacity: 1; } 50% { opacity: 0.6; } }''"
  by (simp add: keyframes_text_def clean_eval js_def)

subsection \<open>The length of an entry's text\<close>

text \<open>
  Claim C3, as the code has it.  Every entry that \<open>processText\<close> makes carries the
  cleaned text after truncation.  The cleaned text has at least the minimum of 10
  characters (a shorter candidate makes no entry), and so has the entry's text.  The
  entry's text has at most 100022 characters: the maximum of 100000 and the 22
  characters of the marker.  A cleaned text within the maximum is kept as it is; a
  longer one is cut to its first 100000 characters with the marker appended, and is not
  rejected for its length.
\<close>

theorem entry_text_length:
  assumes "SendCaptureText e \<in> set (snd (processText txt src now_ms fr))"
  shows "entry_text e = truncate_text (cleanText txt)
       \<and> MIN_TEXT_LENGTH \<le> length (cleanText txt)
       \<and> MIN_TEXT_LENGTH \<le> length (entry_text e)
       \<and> length (entry_text e) \<le> MAX_TEXT_LENGTH + length truncation_marker
       \<and> length truncation_marker = 22
       \<and> (length (cleanText txt) \<le> MAX_TEXT_LENGTH \<longrightarrow> entry_text e = cleanText txt)
       \<and> (length (cleanText txt) > MAX_TEXT_LENGTH
            \<longrightarrow> entry_text e = take MAX_TEXT_LENGTH (cleanText txt) @ truncation_marker
                \<and> length (entry_text e) = MAX_TEXT_LENGTH + length truncation_marker)"
proof -
  let ?c = "truncate_text (cleanText txt)"
  from assms have e: "entry_text e = ?c" and len: "MIN_TEXT_LENGTH \<le> length ?c"
    by (auto simp: processText_def Let_def triggerFlashUpward_def split: if_splits)
  have m: "length truncation_marker = 22"
    by (simp add: truncation_marker_def js_def)
  from len have "MIN_TEXT_LENGTH \<le> length (cleanText txt)"
    by (auto simp: truncate_text_def MIN_TEXT_LENGTH_def MAX_TEXT_LENGTH_def split: if_splits)
  with e len m show ?thesis
    by (auto simp: truncate_text_def)
qed

text \<open>
  The nested frame makes the entry of 38 characters out of the raw paragraph, and the
  top frame makes an entry of exactly 100022 characters out of 100001 letters.
\<close>

theorem entry_text_length_witness:
  "SendCaptureText hello_frame_entry
     \<in> set (snd (processText raw_hello_text Added 1737387047623 nested_frame))
   \<and> entry_text hello_frame_entry = cleanText raw_hello_text
   \<and> length (entry_text hello_frame_entry) = 38
   \<and> SendCaptureText kept_long_entry
     \<in> set (snd (processText too_long_text Initial 1737387045123 top_frame))
   \<and> length (cleanText too_long_text) = 100001
   \<and> length (entry_text kept_long_entry) = MAX_TEXT_LENGTH + length truncation_marker"
proof -
  have h1: "SendCaptureText hello_frame_entry
     \<in> set (snd (processText raw_hello_text Added 1737387047623 nested_frame))"
    by (simp add: raw_hello_processed)
  have "cleanText too_long_text = replicate 100000 97 @ [97]"
    unfolding too_long_text_def letter_run_clean
    using replicate_add [of 100000 1 "97::nat"] by simp
  then have h2: "SendCaptureText kept_long_entry
     \<in> set (snd (processText too_long_text Initial 1737387045123 top_frame))"
    and l2: "length (cleanText too_long_text) = 100001"
    using long_text_kept [of too_long_text "[97]"] by simp_all
  from entry_text_length [OF h1] raw_hello_clean
  have a: "entry_text hello_frame_entry = cleanText raw_hello_text"
    "length (entry_text hello_frame_entry) = 38"
    by (simp_all add: hello_frame_entry_def js_def)
  have gt: "length (cleanText too_long_text) > MAX_TEXT_LENGTH"
    by (simp add: l2 MAX_TEXT_LENGTH_def)
  from entry_text_length [OF h2] gt
  have b: "length (entry_text kept_long_entry) = MAX_TEXT_LENGTH + length truncation_marker"
    by blast
  from h1 h2 l2 a b show ?thesis by blast
qed

text \<open>
  Claim C3 as it is stated bounds the text of an entry by the maximum of 100000
  characters.  The entry made of 100001 letters has 100022.
\<close>

theorem entry_text_length_counterexample:
  "snd (processText too_long_text Initial 1737387045123 top_frame)
     = [SendCaptureText kept_long_entry]
   \<and> length (entry_text kept_long_entry) = 100022
   \<and> MAX_TEXT_LENGTH < length (entry_text kept_long_entry)"
proof -
  have "replicate (100000 + 1) 97 = replicate 100000 97 @ replicate 1 (97::nat)"
    by (rule replicate_add)
  then have "cleanText too_long_text = replicate 100000 97 @ [97]"
    unfolding too_long_text_def letter_run_clean by simp
  from long_text_kept [OF this] show ?thesis
    by (simp add: kept_long_entry_def MAX_TEXT_LENGTH_def js_def)
qed

subsection \<open>Noise signatures\<close>

text \<open>
  Claim C8, as the code has it.  The signatures are tested on the cleaned text after
  truncation.  An input whose cleaned form matches a noise signature makes no entry
  when the cleaned form is within the maximum of 100000 characters, whatever its
  length below that, or when the truncated form (the first 100000 characters and the
  marker) matches a signature as well.
\<close>

theorem noise_signature_rejection:
  assumes "list_ex (\<lambda>p. test p (cleanText txt)) NOISE_PATTERNS"
    and "length (cleanText txt) \<le> MAX_TEXT_LENGTH
         \<or> list_ex (\<lambda>p. test p (take MAX_TEXT_LENGTH (cleanText txt) @ truncation_marker))
              NOISE_PATTERNS"
  shows "processText txt src now_ms fr = (fr, [])"
proof -
  from assms have "list_ex (\<lambda>p. test p (truncate_text (cleanText txt))) NOISE_PATTERNS"
    by (auto simp: truncate_text_def)
  then show ?thesis
    by (simp add: processText_def Let_def)
qed

text \<open>
  The style sheet that the extension itself adds, a \<open>@keyframes\<close> block, is rejected.
\<close>

theorem noise_signature_rejection_witness:
  "list_ex (\<lambda>p. test p (cleanText keyframes_text)) NOISE_PATTERNS
   \<and> length (cleanText keyframes_text) \<le> MAX_TEXT_LENGTH
   \<and> processText keyframes_text Added 1737387047623 nested_frame = (nested_frame, [])"
proof -
  let ?p = "from_start (seq [lit_i ''@keyframes'', one_or_more space])"
  have "test ?p (cleanText keyframes_text)"
    unfolding keyframes_clean by (simp add: rx_eval js_def)
  moreover have "?p \<in> set NOISE_PATTERNS"
    by (simp add: NOISE_PATTERNS_def)
  ultimately have h1: "list_ex (\<lambda>p. test p (cleanText keyframes_text)) NOISE_PATTERNS"
    unfolding list_ex_iff by blast
  have h2: "length (cleanText keyframes_text) \<le> MAX_TEXT_LENGTH"
    unfolding keyframes_clean by (simp add: js_def MAX_TEXT_LENGTH_def)
  from noise_signature_rejection [OF h1 disjI1 [OF h2], of Added 1737387047623 nested_frame] h1 h2
  show ?thesis by blast
qed

text \<open>
  Claim C8 as it is stated holds for an input of any length.  The cleaned form of
  100000 letters followed by \<open>wistia_\<close> matches the signature \<open>/wistia_/i\<close>, but the
  truncation cuts the match off, no signature matches what is left, and the text is
  captured.
\<close>

theorem noise_signature_counterexample:
  "list_ex (\<lambda>p. test p (cleanText noisy_long_text)) NOISE_PATTERNS
   \<and> snd (processText noisy_long_text Initial 1737387045123 top_frame)
       = [SendCaptureText kept_long_entry]"
proof -
  have clean: "cleanText noisy_long_text = replicate 100000 97 @ js ''wistia_''"
    unfolding noisy_long_text_def by (rule letters_clean)
  have "matches (lit_i ''wistia_'') (js ''wistia_'')"
    by (simp add: rx_eval js_def)
  then have "in_lang (lit_i ''wistia_'') (js ''wistia_'')"
    by (simp add: matches_iff)
  from test_anywhere [OF this, of "replicate 100000 97" "[]"]
  have "test (anywhere (lit_i ''wistia_'')) (cleanText noisy_long_text)"
    by (simp add: clean)
  moreover have "anywhere (lit_i ''wistia_'') \<in> set NOISE_PATTERNS"
    by (simp add: NOISE_PATTERNS_def)
  ultimately have "list_ex (\<lambda>p. test p (cleanText noisy_long_text)) NOISE_PATTERNS"
    unfolding list_ex_iff by blast
  moreover have "js ''wistia_'' \<noteq> []"
    by (simp add: js_def)
  from long_text_kept [OF clean this]
  have "snd (processText noisy_long_text Initial 1737387045123 top_frame)
       = [SendCaptureText kept_long_entry]"
    by simp
  ultimately show ?thesis by simp
qed

section \<open>The output serializer\<close>

lemma round_div_1000_spec: "round_div_1000 d = spec_seconds d"
proof -
  have "real_of_int d / 1000 + 1 / 2 = real_of_int (d + 500) / real_of_int 1000"
    by (simp add: field_simps)
  then have "\<lfloor>real_of_int d / 1000 + 1 / 2\<rfloor> = (d + 500) div 1000"
    by (simp only: floor_divide_of_int_eq)
  then show ?thesis
    by (simp add: round_div_1000_def spec_seconds_def round_def)
qed

lemma show_nat_length:
  "n < 10 \<Longrightarrow> length (show_nat n) = 1"
  "10 \<le> n \<Longrightarrow> n < 100 \<Longrightarrow> length (show_nat n) = 2"
  "100 \<le> n \<Longrightarrow> 3 \<le> length (show_nat n)"
proof -
  show a: "length (show_nat n) = 1" if "n < 10" for n
    using that by (simp add: show_nat.simps)
  show b: "length (show_nat n) = 2" if "10 \<le> n" "n < 100" for n
    using that a [of "n div 10"] by (subst show_nat.simps) simp
  show "3 \<le> length (show_nat n)" if "100 \<le> n"
  proof (cases "n div 10 < 100")
    case True
    with that b [of "n div 10"] show ?thesis
      by (subst show_nat.simps) simp
  next
    case False
    then have "length (show_nat (n div 10)) \<ge> 1"
      by (subst show_nat.simps) simp
    moreover have "length (show_nat (n div 10)) \<noteq> 1"
    proof
      assume l: "length (show_nat (n div 10)) = 1"
      from False have "10 \<le> n div 10" by simp
      then have "length (show_nat (n div 10)) = length (show_nat (n div 10 div 10)) + 1"
        by (subst show_nat.simps) simp
      with l have "length (show_nat (n div 10 div 10)) = 0" by simp
      then show False
        by (subst (asm) show_nat.simps) (simp split: if_splits)
    qed
    ultimately have "2 \<le> length (show_nat (n div 10))" by simp
    with that show ?thesis
      by (subst show_nat.simps) simp
  qed
qed

lemma padStart_ordinal: "padStart 3 48 (show_nat k) = spec_ordinal k"
proof -
  consider "k < 10" | "10 \<le> k" "k < 100" | "100 \<le> k" by linarith
  then show ?thesis
  proof cases
    case 1
    then show ?thesis
      by (simp add: padStart_def spec_ordinal_def show_nat_length js_def replicate_numeral)
  next
    case 2
    then show ?thesis
      by (simp add: padStart_def spec_ordinal_def show_nat_length js_def replicate_numeral)
  next
    case 3
    with show_nat_length(3) [of k] show ?thesis
      by (simp add: padStart_def spec_ordinal_def)
  qed
qed

lemma format_entry_spec:
  "format_entry start i e = spec_tag_line start (Suc i) e @ nl @ entry_text e @ nl"
  by (simp add: format_entry_def spec_tag_line_def padStart_ordinal round_div_1000_spec)

lemma body_spec:
  "join nl (map (\<lambda>(i, e). format_entry start i e) (enumerate k es)) = spec_entries start (Suc k) es"
proof (induction es arbitrary: k rule: spec_entries.induct [where ?a0.0 = start and ?a1.0 = 0])
  case (1 start' k')
  show ?case by simp
next
  case (2 start' k' e)
  show ?case by (simp add: format_entry_spec)
next
  case (3 start' k' e e' es)
  show ?case
    using "3" [of "Suc k"] by (simp add: format_entry_spec)
qed

lemma header_spec: "header start endTime n bytes = spec_header start endTime n bytes"
  by (simp add: header_def spec_header_def text_lines_def round_div_1000_spec)

lemmas spec_eval = spec_header_def spec_tag_line_def spec_ordinal_def
  round_div_1000_spec [symmetric] round_div_1000_def toFixed1_div_1024_def show_int_def
  repeat_def nl_def text_lines_def js_def replicate_numeral padStart_def

text \<open>
  Claim C4.  For a session with a start time and any list of entries, \<open>formatOutput\<close>
  writes the header block (start and end time stamps, the duration in whole seconds,
  the number of entries and the size in kilobytes) and then, for each entry, the tag
  line \<open>[ordinal] +offset s | frameId | url\<close>, with the ordinal counted from 1 and
  padded with zeros to three digits and the offset in seconds since the start rounded
  to the nearest integer, the entry's text as it is, and a blank line before the next
  entry.
\<close>

theorem serializer_format:
  assumes "captureStartTime s = Some start"
  shows "formatOutput endTime s =
           Inr (spec_header start endTime (length (capturedText s)) (currentCaptureSize s)
                @ spec_entries start 1 (capturedText s))"
  using assms by (simp add: formatOutput_def header_spec body_spec)

text \<open>
  The session of three entries: the first entry, captured at the start time, is written
  as \<open>[001] +0s | main | https://example.com\<close>; an offset of 2500 ms is written as 3
  seconds; braces and angle brackets in a text stay as they are.
\<close>

theorem serializer_format_witness:
  "captureStartTime three_entry_session = Some 1737387045123
   \<and> formatOutput 1737387130456 three_entry_session = Inr three_entry_document"
proof -
  have h: "captureStartTime three_entry_session = Some 1737387045123"
    by (simp add: three_entry_session_def)
  have "spec_header 1737387045123 1737387130456 (length (capturedText three_entry_session))
          (currentCaptureSize three_entry_session)
        @ spec_entries 1737387045123 1 (capturedText three_entry_session)
        = three_entry_document"
    by (simp add: three_entry_session_def three_entry_document_def hello_entry_def
        second_entry_def third_entry_def spec_eval date_eval show_nat_eval)
  with serializer_format [OF h, of 1737387130456] h show ?thesis
    by simp
qed

section \<open>The session aggregator\<close>

lemma empty_session_eq:
  "empty_session =
     \<lparr>isCapturing = True, captureStartTime = Some 1737387045123, capturedText = [],
      seenHashes = {}, activeTabId = Some 7, currentCaptureSize = 0\<rparr>"
  by (simp add: empty_session_def startCapture_def initial_state_def clk_start_def)

lemma header_nonempty: "header start endTime n bytes \<noteq> []"
  by (simp add: header_def repeat_def)

lemma formatOutput_started:
  "captureStartTime s = Some t0 \<Longrightarrow> \<exists>content. formatOutput endTime s = Inr content \<and> content \<noteq> []"
  by (simp add: formatOutput_def header_nonempty)

lemma formatOutput_seenHashes [simp]:
  "formatOutput endTime (s\<lparr>seenHashes := h\<rparr>) = formatOutput endTime s"
  "formatOutput endTime (s\<lparr>isCapturing := b\<rparr>) = formatOutput endTime s"
  by (simp_all add: formatOutput_def split: option.splits)

lemma stopCapture_finish_started:
  assumes "captureStartTime s = Some t0" and "formatOutput (now clk) s = Inr content"
  shows "stopCapture_finish clk s =
           (reset_state s,
            if capturedText s = [] then [] else [Download content (generateFilename clk) True])"
  using assms formatOutput_started [OF assms(1), of "now clk"]
  by (auto simp: stopCapture_finish_def saveCapture_def)

lemma stopCapture_finish_resets:
  "captureStartTime s = Some t0 \<Longrightarrow> fst (stopCapture_finish clk s) = reset_state s"
  using formatOutput_started [of s t0 "now clk"] stopCapture_finish_started [of s t0 clk]
  by auto

lemma settle_stopCapture:
  assumes "isCapturing s" and "captureStartTime s = Some t0"
    and "formatOutput (now clk) s = Inr content"
  shows "settle clk (stopCapture clk s) =
           (reset_state (s\<lparr>isCapturing := False\<rparr>),
            StateChanged False # stop_notices s
            @ (if capturedText s = [] then [] else [Download content (generateFilename clk) True]))"
proof -
  let ?s1 = "s\<lparr>isCapturing := False\<rparr>"
  have fin: "stopCapture_finish clk ?s1 =
           (reset_state ?s1,
            if capturedText s = [] then [] else [Download content (generateFilename clk) True])"
    using stopCapture_finish_started [of ?s1 t0 clk content] assms by simp
  show ?thesis
    using assms(1) fin
    by (auto simp: settle_def stopCapture_def stop_notices_def resume_def Let_def
        split: option.splits)
qed

lemma hello_fingerprint:
  "fingerprint (entry_text hello_entry) = js ''Hello world, this is a test paragraph.38''"
  "fingerprint (entry_text hello_frame_entry) = js ''Hello world, this is a test paragraph.38''"
  by (simp_all add: fingerprint_def hello_entry_def hello_frame_entry_def show_nat_eval js_def)

lemma hello_session_reached:
  "run [Submit clk_start (Some 7) hello_entry] (empty_session, []) = (hello_session, [])"
  by (simp add: captureText_def empty_session_eq hello_session_def hello_entry_def
      fingerprint_def MAX_CAPTURE_SIZE_def show_nat_eval js_def)

lemma three_entry_session_reached:
  "run [Submit clk_start (Some 7) hello_entry, Submit clk_start (Some 7) second_entry,
        Submit clk_start (Some 7) third_entry] (empty_session, [])
     = (three_entry_session, [])"
  by (simp add: captureText_def empty_session_eq three_entry_session_def hello_entry_def
      second_entry_def third_entry_def fingerprint_def MAX_CAPTURE_SIZE_def show_nat_eval js_def
      insert_commute)



lemma start_iso: "toISOString 1737387045123 = js ''2025-01-20T15:30:45.123Z''"
  by (simp add: date_eval padStart_def show_nat_eval js_def replicate_numeral)


lemma start_from_initial:
  "toggleCapture 7 clk_start initial_state =
     (empty_session,
      [SetBadgeText (js ''REC'') 7, SetBadgeBackgroundColor (js ''#e74c3c'') 7, StateChanged True,
       TabsSendMessage 7 (Start (js ''2025-01-20T15:30:45.123Z'') None)],
      [])"
  by (simp add: toggleCapture_def startCapture_def initial_state_def empty_session_def
      clk_start_def date_eval padStart_def show_nat_eval js_def replicate_numeral)

lemma hello_submitted:
  "captureText clk_start (Some 7) hello_entry empty_session =
     (hello_session, [TabsSendMessage 7 (UpdateCount 1)], [])"
  by (simp add: captureText_def empty_session_eq hello_session_def hello_entry_def
      fingerprint_def MAX_CAPTURE_SIZE_def show_nat_eval js_def)

lemma hello_stop_requested:
  "toggleCapture tabId clk hello_session =
     (hello_session\<lparr>isCapturing := False\<rparr>,
      [StateChanged False, SetBadgeText [] 7, TabsSendMessage 7 Stop], [AfterStopNotice])"
  by (simp add: toggleCapture_def stopCapture_def hello_session_def)




subsection \<open>Consistency is kept\<close>

lemma consistent_initial: "consistent initial_state"
  by (simp add: consistent_def initial_state_def)

lemma consistent_reset: "consistent s \<Longrightarrow> consistent (reset_state s)"
  by (simp add: consistent_def reset_state_def)

lemma consistent_not_capturing:
  "consistent s \<Longrightarrow> consistent (s\<lparr>isCapturing := False\<rparr>)"
  by (simp add: consistent_def)

lemma consistent_insert_hash:
  "consistent s \<Longrightarrow> consistent (s\<lparr>seenHashes := insert h (seenHashes s)\<rparr>)"
  by (simp add: consistent_def)

lemma consistent_stopCapture_finish:
  "consistent s \<Longrightarrow> consistent (fst (stopCapture_finish clk s))"
  by (auto simp: stopCapture_finish_def consistent_reset split: sum.splits)

lemma consistent_stopCapture:
  "consistent s \<Longrightarrow> consistent (fst (stopCapture clk s))"
  by (auto simp: stopCapture_def Let_def consistent_stopCapture_finish consistent_not_capturing
      split: option.splits prod.splits
      dest: consistent_stopCapture_finish [OF consistent_not_capturing, of _ clk])

lemma consistent_autoStopCapture:
  "consistent s \<Longrightarrow> consistent (fst (autoStopCapture reason clk s))"
  by (auto simp: autoStopCapture_def consistent_stopCapture split: option.splits)

lemma consistent_admit:
  assumes "consistent s" and "isCapturing s"
    and "fingerprint (entry_text e) \<notin> seenHashes s"
    and "currentCaptureSize s + length (entry_text e) * 2 \<le> MAX_CAPTURE_SIZE"
  shows "consistent
           (s\<lparr>seenHashes := insert (fingerprint (entry_text e)) (seenHashes s),
              currentCaptureSize := currentCaptureSize s + length (entry_text e) * 2,
              capturedText := capturedText s @ [e]\<rparr>)"
  using assms by (auto simp: consistent_def)

lemma consistent_captureText:
  assumes "consistent s"
  shows "consistent (fst (captureText clk sender e s))"
proof -
  let ?h = "fingerprint (entry_text e)"
  let ?s1 = "s\<lparr>seenHashes := insert ?h (seenHashes s)\<rparr>"
  have a: "consistent (fst (autoStopCapture size_limit_reason clk ?s1))"
    by (rule consistent_autoStopCapture) (rule consistent_insert_hash [OF assms])
  show ?thesis
    using assms a consistent_admit [OF assms, of e]
    by (auto simp: captureText_def Let_def)
qed

lemma consistent_startCapture:
  "consistent s \<Longrightarrow> consistent (fst (startCapture tabId clk s))"
  by (simp add: startCapture_def consistent_def)

lemma consistent_resume:
  "consistent s \<Longrightarrow> consistent (fst (resume k clk s))"
  by (cases k)
     (auto simp: resume_def consistent_stopCapture split: prod.splits
       dest: consistent_stopCapture_finish [of _ clk])

lemma consistent_step:
  "consistent (fst c) \<Longrightarrow> consistent (fst (step ev c))"
proof (cases c)
  case (Pair s ks)
  assume "consistent (fst c)"
  with Pair have cs: "consistent s" by simp
  show ?thesis
  proof (cases ev)
    case (Submit clk sender e)
    with Pair consistent_captureText [OF cs, of clk sender e] show ?thesis
      by (auto split: prod.splits)
  next
    case (Toggle clk tabId)
    with Pair consistent_startCapture [OF cs, of tabId clk] consistent_stopCapture [OF cs, of clk]
    show ?thesis
      by (auto simp: toggleCapture_def split: prod.splits)
  next
    case (TabRemoved clk tabId)
    with Pair cs consistent_stopCapture [OF cs, of clk] show ?thesis
      by (auto simp: onTabRemoved_def split: prod.splits)
  next
    case (Resume clk i)
    with Pair cs consistent_resume [OF cs, of "ks ! i" clk] show ?thesis
      by (auto split: prod.splits)
  qed
qed

lemma consistent_run:
  "consistent (fst c) \<Longrightarrow> consistent (fst (run evs c))"
proof (induction evs arbitrary: c)
  case Nil
  then show ?case by simp
next
  case (Cons ev evs)
  from Cons.prems have "consistent (fst (step ev c))"
    by (rule consistent_step)
  then show ?case
    using Cons.IH by simp
qed

lemma consistent_unseen_not_retained:
  "consistent s \<Longrightarrow> fingerprint (entry_text e) \<notin> seenHashes s \<Longrightarrow> e \<notin> set (capturedText s)"
  by (auto simp: consistent_def)

lemma consistent_started:
  "consistent s \<Longrightarrow> isCapturing s \<or> capturedText s \<noteq> [] \<Longrightarrow> \<exists>t0. captureStartTime s = Some t0"
  by (auto simp: consistent_def)

lemma stopCapture_finish_consistent:
  assumes "consistent s"
  shows "fst (stopCapture_finish clk s) = reset_state s"
proof (cases "capturedText s = []")
  case True
  then show ?thesis by (simp add: stopCapture_finish_def)
next
  case False
  with consistent_started [OF assms] obtain t0 where "captureStartTime s = Some t0" by blast
  then show ?thesis by (rule stopCapture_finish_resets)
qed

subsection \<open>Runs without the race between start and stop\<close>

lemma stopCapture_cases:
  assumes "consistent s" and "stopCapture clk s = (s', effs, ks1)"
  shows "(\<not> isCapturing s \<and> s' = s \<and> ks1 = [])
       \<or> (isCapturing s \<and> s' = s\<lparr>isCapturing := False\<rparr> \<and> ks1 = [AfterStopNotice])
       \<or> (isCapturing s \<and> s' = reset_state (s\<lparr>isCapturing := False\<rparr>) \<and> ks1 = [])"
  using assms(2) stopCapture_finish_consistent [OF consistent_not_capturing [OF assms(1)], of clk]
  by (auto simp: stopCapture_def Let_def split: if_splits option.splits prod.splits)

lemma orderly_stopCapture:
  assumes "orderly (s, ks)" and "stopCapture clk s = (s', effs, ks1)"
  shows "orderly (s', ks @ ks1)
       \<and> (currentCaptureSize s \<le> currentCaptureSize s'
          \<or> currentCaptureSize s' = 0 \<and> \<not> isCapturing s')"
proof -
  from assms(1) have con: "consistent s" by (simp add: orderly_def)
  from stopCapture_cases [OF con assms(2)] consistent_not_capturing [OF con]
    consistent_reset [OF consistent_not_capturing [OF con]] assms(1)
  show ?thesis
    by (auto simp: orderly_def reset_state_def count_list_0_iff)
qed

lemma orderly_captureText:
  assumes "orderly (s, ks)" and "captureText clk sender e s = (s', effs, ks1)"
  shows "orderly (s', ks @ ks1)
       \<and> (currentCaptureSize s \<le> currentCaptureSize s'
          \<or> currentCaptureSize s' = 0 \<and> \<not> isCapturing s')"
proof -
  let ?h = "fingerprint (entry_text e)"
  let ?s1 = "s\<lparr>seenHashes := insert ?h (seenHashes s)\<rparr>"
  let ?n = "length (entry_text e) * 2"
  from assms(1) have con: "consistent s" by (simp add: orderly_def)
  consider (ignored) "\<not> isCapturing s \<or> sender = None \<or> sender \<noteq> activeTabId s \<or> ?h \<in> seenHashes s"
    | (over) "isCapturing s" "?h \<notin> seenHashes s" "currentCaptureSize s + ?n > MAX_CAPTURE_SIZE"
        "\<not> (sender = None \<or> sender \<noteq> activeTabId s)"
    | (admitted) "isCapturing s" "?h \<notin> seenHashes s" "currentCaptureSize s + ?n \<le> MAX_CAPTURE_SIZE"
        "\<not> (sender = None \<or> sender \<noteq> activeTabId s)"
    by fastforce
  then show ?thesis
  proof cases
    case ignored
    with assms(2) have "s' = s \<and> ks1 = []"
      by (auto simp: captureText_def Let_def split: if_splits)
    with assms(1) show ?thesis by simp
  next
    case over
    have o1: "orderly (?s1, ks)"
      using assms(1) consistent_insert_hash [OF con, of ?h] by (simp add: orderly_def)
    from over assms(2) have a: "autoStopCapture size_limit_reason clk ?s1 = (s', effs, ks1)"
      by (auto simp: captureText_def Let_def split: if_splits)
    show ?thesis
    proof (cases "\<exists>t. activeTabId s = Some t \<and> t \<noteq> 0")
      case True
      with a have "s' = ?s1" "ks1 = [AfterAutoStopNotice]"
        by (auto simp: autoStopCapture_def)
      with o1 show ?thesis by (simp add: orderly_def)
    next
      case False
      with a have "stopCapture clk ?s1 = (s', effs, ks1)"
        by (auto simp: autoStopCapture_def split: option.splits)
      from orderly_stopCapture [OF o1 this] show ?thesis by simp
    qed
  next
    case admitted
    with assms(2) have eq: "s' = s\<lparr>seenHashes := insert ?h (seenHashes s),
              currentCaptureSize := currentCaptureSize s + ?n,
              capturedText := capturedText s @ [e]\<rparr>" "ks1 = []"
      by (auto simp: captureText_def Let_def split: if_splits)
    from consistent_admit [OF con admitted(1,2,3)] eq assms(1) admitted(1) show ?thesis
      by (simp add: orderly_def)
  qed
qed

lemma orderly_startCapture:
  assumes "orderly (s, ks)" and "isCapturing s \<or> AfterStopNotice \<notin> set ks"
    and "startCapture tabId clk s = (s', effs, ks1)"
  shows "orderly (s', ks @ ks1) \<and> currentCaptureSize s \<le> currentCaptureSize s'"
proof -
  from assms(1) have con: "consistent s" by (simp add: orderly_def)
  from consistent_startCapture [OF con, of tabId clk] assms show ?thesis
    by (auto simp: orderly_def startCapture_def split: if_splits)
qed

lemma count_list_without:
  assumes "i < length ks"
  shows "count_list ks x = count_list (take i ks @ drop (Suc i) ks) x + (if ks ! i = x then 1 else 0)"
proof -
  have "ks = take i ks @ ks ! i # drop (Suc i) ks"
    using assms by (rule id_take_nth_drop)
  then have "count_list ks x = count_list (take i ks @ ks ! i # drop (Suc i) ks) x"
    by simp
  then show ?thesis by simp
qed

lemma set_without_cases:
  assumes "i < length ks"
  shows "set ks = insert (ks ! i) (set (take i ks @ drop (Suc i) ks))"
proof -
  have "ks = take i ks @ ks ! i # drop (Suc i) ks"
    using assms by (rule id_take_nth_drop)
  then have "set ks = set (take i ks @ ks ! i # drop (Suc i) ks)"
    by simp
  then show ?thesis by simp
qed

lemma orderly_resume:
  assumes "orderly (s, ks)" and "i < length ks" and "resume (ks ! i) clk s = (s', effs, ks1)"
  shows "orderly (s', take i ks @ drop (Suc i) ks @ ks1)
       \<and> (currentCaptureSize s \<le> currentCaptureSize s'
          \<or> currentCaptureSize s' = 0 \<and> \<not> isCapturing s')"
proof -
  let ?rest = "take i ks @ drop (Suc i) ks"
  from assms(1) have con: "consistent s" by (simp add: orderly_def)
  note cnt = count_list_without [OF assms(2), of AfterStopNotice]
  note mem = set_without_cases [OF assms(2)]
  show ?thesis
  proof (cases "ks ! i")
    case AfterAutoStopNotice
    with assms(1) cnt mem have o: "orderly (s, ?rest)"
      by (auto simp: orderly_def)
    from AfterAutoStopNotice assms(3) have "stopCapture clk s = (s', effs, ks1)"
      by (simp add: resume_def)
    from orderly_stopCapture [OF o this] show ?thesis by simp
  next
    case AfterStopNotice
    with assms(2) have "AfterStopNotice \<in> set ks"
      by (metis nth_mem)
    with assms(1) have stopped: "\<not> isCapturing s"
      by (simp add: orderly_def)
    from AfterStopNotice assms(1) cnt have none: "AfterStopNotice \<notin> set ?rest"
      by (simp add: orderly_def count_list_0_iff [symmetric])
    from AfterStopNotice assms(3) stopCapture_finish_consistent [OF con, of clk]
    have eq: "s' = reset_state s" "ks1 = []"
      by (auto simp: resume_def split: prod.splits)
    from consistent_reset [OF con] eq stopped none show ?thesis
      by (simp add: orderly_def reset_state_def count_list_0_iff)
  qed
qed

lemma orderly_step:
  assumes "orderly c" and "starts_cleanly ev c"
  shows "orderly (step ev c)
       \<and> (currentCaptureSize (fst c) \<le> currentCaptureSize (fst (step ev c))
          \<or> currentCaptureSize (fst (step ev c)) = 0 \<and> \<not> isCapturing (fst (step ev c)))"
proof (cases c)
  case (Pair s ks)
  show ?thesis
  proof (cases ev)
    case (Submit clk sender e)
    obtain s' effs ks1 where r: "captureText clk sender e s = (s', effs, ks1)"
      by (cases "captureText clk sender e s") auto
    from orderly_captureText [OF assms(1) [unfolded Pair] r] Pair Submit r show ?thesis
      by simp
  next
    case (Toggle clk tabId)
    show ?thesis
    proof (cases "isCapturing s")
      case True
      obtain s' effs ks1 where r: "stopCapture clk s = (s', effs, ks1)"
        by (cases "stopCapture clk s") auto
      from orderly_stopCapture [OF assms(1) [unfolded Pair] r] Pair Toggle r True show ?thesis
        by (simp add: toggleCapture_def)
    next
      case False
      obtain s' effs ks1 where r: "startCapture tabId clk s = (s', effs, ks1)"
        by (cases "startCapture tabId clk s") auto
      from assms(2) Pair Toggle have "isCapturing s \<or> AfterStopNotice \<notin> set ks"
        by (simp add: starts_cleanly_def)
      from orderly_startCapture [OF assms(1) [unfolded Pair] this r] Pair Toggle r False
      show ?thesis
        by (simp add: toggleCapture_def)
    qed
  next
    case (TabRemoved clk tabId)
    obtain s' effs ks1 where r: "stopCapture clk s = (s', effs, ks1)"
      by (cases "stopCapture clk s") auto
    from orderly_stopCapture [OF assms(1) [unfolded Pair] r] Pair TabRemoved r assms(1)
    show ?thesis
      by (simp add: onTabRemoved_def)
  next
    case (Resume clk i)
    show ?thesis
    proof (cases "i < length ks")
      case False
      with Pair Resume assms(1) show ?thesis by simp
    next
      case True
      obtain s' effs ks1 where r: "resume (ks ! i) clk s = (s', effs, ks1)"
        by (cases "resume (ks ! i) clk s") auto
      from orderly_resume [OF assms(1) [unfolded Pair] True r] Pair Resume r True show ?thesis
        by simp
    qed
  qed
qed

lemma orderly_initial: "orderly (initial_state, [])"
  using consistent_initial by (simp add: orderly_def initial_state_def)

lemma orderly_run:
  "orderly c \<Longrightarrow> race_free evs c \<Longrightarrow> orderly (run evs c)"
proof (induction evs arbitrary: c)
  case Nil
  then show ?case by simp
next
  case (Cons ev evs)
  from Cons.prems have "orderly (step ev c)" "race_free evs (step ev c)"
    using orderly_step [of c ev] by simp_all
  then show ?case
    using Cons.IH by simp
qed



subsection \<open>Stopping\<close>








subsection \<open>The state query\<close>

text \<open>
  Claim C9.  A \<open>getState\<close> query from the popup returns \<open>isCapturing\<close>, the start time
  as an ISO string (\<open>null\<close> before the first session) and the number of entries of the
  aggregator.  A query from a content script returns the same three fields and no
  other: the start time and the number are those of the popup's answer, and
  \<open>isCapturing\<close> is true exactly when the aggregator records and the querying tab is the
  one bound to the session.  So two different tabs are never both told true; a tab that
  is not bound gets the same answer whether the aggregator records or not; and while the
  aggregator does not record, the answer does not depend on the tab that is bound.  In
  every state that a run free of the race between start and stop reaches from the
  initial state, a recording aggregator has a tab bound, which is told true, and an
  answer that says true or counts an entry carries a start time.
\<close>

theorem state_query_contract:
  "getState None s =
     \<lparr>resp_isCapturing = isCapturing s,
      startTime = map_option toISOString (captureStartTime s),
      entryCount = length (capturedText s)\<rparr>
   \<and> startTime (getState (Some tab) s) = startTime (getState None s)
   \<and> entryCount (getState (Some tab) s) = entryCount (getState None s)
   \<and> resp_isCapturing (getState (Some tab) s) = (isCapturing s \<and> activeTabId s = Some tab)
   \<and> (tab' \<noteq> tab
        \<longrightarrow> \<not> (resp_isCapturing (getState (Some tab) s)
               \<and> resp_isCapturing (getState (Some tab') s)))
   \<and> (activeTabId s \<noteq> Some tab
        \<longrightarrow> getState (Some tab) (s\<lparr>isCapturing := b\<rparr>) = getState (Some tab) s)
   \<and> (\<not> isCapturing s
        \<longrightarrow> getState (Some tab) (s\<lparr>activeTabId := a\<rparr>) = getState (Some tab) s)
   \<and> (race_free evs (initial_state, []) \<and> run evs (initial_state, []) = (s, ks)
        \<longrightarrow> (isCapturing s
              \<longrightarrow> (\<exists>t. activeTabId s = Some t \<and> resp_isCapturing (getState (Some t) s)))
            \<and> (resp_isCapturing (getState sender s) \<or> 0 < entryCount (getState sender s)
              \<longrightarrow> startTime (getState sender s) \<noteq> None))"
proof -
  have reach: "(isCapturing s
              \<longrightarrow> (\<exists>t. activeTabId s = Some t \<and> resp_isCapturing (getState (Some t) s)))
            \<and> (resp_isCapturing (getState sender s) \<or> 0 < entryCount (getState sender s)
              \<longrightarrow> startTime (getState sender s) \<noteq> None)"
    if "race_free evs (initial_state, [])" and "run evs (initial_state, []) = (s, ks)"
  proof -
    from orderly_run [OF orderly_initial that(1)] that(2) have o: "orderly (s, ks)"
      by simp
    then have con: "consistent s" and tab: "isCapturing s \<longrightarrow> activeTabId s \<noteq> None"
      by (simp_all add: orderly_def)
    from tab have 1: "isCapturing s
              \<longrightarrow> (\<exists>t. activeTabId s = Some t \<and> resp_isCapturing (getState (Some t) s))"
      by (auto simp: getState_def)
    have 2: "resp_isCapturing (getState sender s) \<or> 0 < entryCount (getState sender s)
              \<longrightarrow> startTime (getState sender s) \<noteq> None"
      using consistent_started [OF con]
      by (cases sender) (auto simp: getState_def)
    from 1 2 show ?thesis by blast
  qed
  have popup: "getState None s =
     \<lparr>resp_isCapturing = isCapturing s,
      startTime = map_option toISOString (captureStartTime s),
      entryCount = length (capturedText s)\<rparr>"
    by (simp add: getState_def)
  have fields: "startTime (getState (Some tab) s) = startTime (getState None s)"
    "entryCount (getState (Some tab) s) = entryCount (getState None s)"
    by (simp_all add: getState_def)
  have flag: "\<And>t. resp_isCapturing (getState (Some t) s) = (isCapturing s \<and> activeTabId s = Some t)"
    by (auto simp: getState_def)
  have one: "tab' \<noteq> tab
        \<longrightarrow> \<not> (resp_isCapturing (getState (Some tab) s)
               \<and> resp_isCapturing (getState (Some tab') s))"
    unfolding flag by auto
  have unbound: "activeTabId s \<noteq> Some tab
        \<longrightarrow> getState (Some tab) (s\<lparr>isCapturing := b\<rparr>) = getState (Some tab) s"
    by (auto simp: getState_def)
  have idle: "\<not> isCapturing s
        \<longrightarrow> getState (Some tab) (s\<lparr>activeTabId := a\<rparr>) = getState (Some tab) s"
    by (auto simp: getState_def)
  from popup fields flag [of tab] one unbound idle reach show ?thesis
    by blast
qed

text \<open>
  While tab 7 records one entry, the popup and tab 7 are told that it records, and tab 8
  is told that it does not, as it is when nothing records.
\<close>

theorem state_query_contract_witness:
  "getState None hello_session =
     \<lparr>resp_isCapturing = True, startTime = Some (js ''2025-01-20T15:30:45.123Z''),
      entryCount = 1\<rparr>
   \<and> getState (Some 7) hello_session =
     \<lparr>resp_isCapturing = True, startTime = Some (js ''2025-01-20T15:30:45.123Z''),
      entryCount = 1\<rparr>
   \<and> getState (Some 8) hello_session =
     \<lparr>resp_isCapturing = False, startTime = Some (js ''2025-01-20T15:30:45.123Z''),
      entryCount = 1\<rparr>
   \<and> (8::int) \<noteq> 7 \<and> activeTabId hello_session \<noteq> Some 8
   \<and> getState (Some 8) (hello_session\<lparr>isCapturing := False\<rparr>) = getState (Some 8) hello_session
   \<and> \<not> isCapturing (hello_session\<lparr>isCapturing := False\<rparr>)
   \<and> getState (Some 7) (hello_session\<lparr>isCapturing := False, activeTabId := None\<rparr>)
       = getState (Some 7) (hello_session\<lparr>isCapturing := False\<rparr>)
   \<and> race_free [Toggle clk_start 7, Submit clk_start (Some 7) hello_entry] (initial_state, [])
   \<and> run [Toggle clk_start 7, Submit clk_start (Some 7) hello_entry] (initial_state, [])
       = (hello_session, [])
   \<and> isCapturing hello_session
   \<and> (\<exists>t. activeTabId hello_session = Some t
          \<and> resp_isCapturing (getState (Some t) hello_session))
   \<and> startTime (getState (Some 8) hello_session) \<noteq> None"
proof -
  let ?evs = "[Toggle clk_start 7, Submit clk_start (Some 7) hello_entry]"
  let ?stopped = "hello_session\<lparr>isCapturing := False\<rparr>"
  have eq: "\<And>r :: state_response. r = \<lparr>resp_isCapturing = resp_isCapturing r,
      startTime = startTime r, entryCount = entryCount r\<rparr>"
    by simp
  have f: "race_free ?evs (initial_state, [])"
    by (simp add: starts_cleanly_def)
  have r: "run ?evs (initial_state, []) = (hello_session, [])"
    by (simp add: start_from_initial hello_submitted)
  have h: "isCapturing hello_session" "activeTabId hello_session \<noteq> Some 8"
    "\<not> isCapturing ?stopped" "(8::int) \<noteq> 7"
    by (simp_all add: hello_session_def)
  have cnt: "0 < entryCount (getState (Some 8) hello_session)"
    by (simp add: getState_def hello_session_def)
  note t7 = state_query_contract [of hello_session 7 8 False None ?evs "[]" "Some 8"]
  note t8 = state_query_contract [of hello_session 8 7 False None ?evs "[]" "Some 8"]
  note ts = state_query_contract [of ?stopped 7 8 False None "[]" "[]" None]
  have a: "getState None hello_session =
     \<lparr>resp_isCapturing = True, startTime = Some (js ''2025-01-20T15:30:45.123Z''),
      entryCount = 1\<rparr>"
    using t7 by (simp add: hello_session_def start_iso)
  have b: "getState (Some 7) hello_session =
     \<lparr>resp_isCapturing = True, startTime = Some (js ''2025-01-20T15:30:45.123Z''),
      entryCount = 1\<rparr>"
    using t7 a by (subst eq) (simp add: hello_session_def)
  have c: "getState (Some 8) hello_session =
     \<lparr>resp_isCapturing = False, startTime = Some (js ''2025-01-20T15:30:45.123Z''),
      entryCount = 1\<rparr>"
    using t8 a by (subst eq) (simp add: hello_session_def)
  from t8 h have d: "getState (Some 8) ?stopped = getState (Some 8) hello_session"
    by blast
  from ts h have e: "getState (Some 7) (?stopped\<lparr>activeTabId := None\<rparr>) = getState (Some 7) ?stopped"
    by blast
  from t8 f r h cnt
  have g: "\<exists>t. activeTabId hello_session = Some t
          \<and> resp_isCapturing (getState (Some t) hello_session)"
    and i: "startTime (getState (Some 8) hello_session) \<noteq> None"
    by blast+
  from a b c h d e f r g i show ?thesis
    by simp
qed

text \<open>
  The answer to a content script neither reflects the global flag nor reports the
  binding on its own.  While tab 7 records, the popup is told true and tab 8 false, and
  tab 8 gets the very answer it gets from the stopped aggregator.  After the toggle that
  stops the session, while tab 7 is still the bound one, tab 7 and tab 8 get the same
  answer.
\<close>

theorem state_query_counterexample:
  "isCapturing hello_session \<and> activeTabId hello_session = Some 7
   \<and> resp_isCapturing (getState None hello_session) = True
   \<and> resp_isCapturing (getState (Some 8) hello_session) = False
   \<and> getState (Some 8) hello_session = getState (Some 8) (hello_session\<lparr>isCapturing := False\<rparr>)
   \<and> run [Toggle clk_stop 7] (hello_session, [])
       = (hello_session\<lparr>isCapturing := False\<rparr>, [AfterStopNotice])
   \<and> activeTabId (hello_session\<lparr>isCapturing := False\<rparr>) = Some 7
   \<and> getState (Some 7) (hello_session\<lparr>isCapturing := False\<rparr>)
       = getState (Some 8) (hello_session\<lparr>isCapturing := False\<rparr>)"
  by (simp add: getState_def hello_stop_requested) (simp add: hello_session_def)

subsection \<open>The long session\<close>

lemma run_admits:
  assumes "isCapturing s" and "activeTabId s = Some tab"
    and "\<forall>e \<in> set es. fingerprint (entry_text e) \<notin> seenHashes s"
    and "distinct (map (\<lambda>e. fingerprint (entry_text e)) es)"
    and "currentCaptureSize s + sum_list (map (\<lambda>e. length (entry_text e) * 2) es) \<le> MAX_CAPTURE_SIZE"
  shows "run (map (Submit clk (Some tab)) es) (s, ks) =
           (s\<lparr>seenHashes := seenHashes s \<union> (\<lambda>e. fingerprint (entry_text e)) ` set es,
              currentCaptureSize :=
                currentCaptureSize s + sum_list (map (\<lambda>e. length (entry_text e) * 2) es),
              capturedText := capturedText s @ es\<rparr>, ks)"
  using assms
proof (induction es arbitrary: s)
  case Nil
  then show ?case by simp
next
  case (Cons e es)
  let ?s1 = "s\<lparr>seenHashes := insert (fingerprint (entry_text e)) (seenHashes s),
                currentCaptureSize := currentCaptureSize s + length (entry_text e) * 2,
                capturedText := capturedText s @ [e]\<rparr>"
  from Cons.prems have st: "step (Submit clk (Some tab) e) (s, ks) = (?s1, ks)"
    by (auto simp: captureText_def Let_def)
  have "run (map (Submit clk (Some tab)) es) (?s1, ks) =
           (?s1\<lparr>seenHashes := seenHashes ?s1 \<union> (\<lambda>e. fingerprint (entry_text e)) ` set es,
              currentCaptureSize :=
                currentCaptureSize ?s1 + sum_list (map (\<lambda>e. length (entry_text e) * 2) es),
              capturedText := capturedText ?s1 @ es\<rparr>, ks)"
  proof (rule Cons.IH)
    show "\<forall>x \<in> set es. fingerprint (entry_text x) \<notin> seenHashes ?s1"
    proof
      fix x
      assume x: "x \<in> set es"
      with Cons.prems(4) have "fingerprint (entry_text x) \<noteq> fingerprint (entry_text e)"
        by (auto simp: image_iff)
      with x Cons.prems(3) show "fingerprint (entry_text x) \<notin> seenHashes ?s1"
        by simp
    qed
  qed (use Cons.prems in auto)
  with st show ?case
    by (simp add: add.assoc)
qed

lemma fingerprint_replicate:
  "100 \<le> n \<Longrightarrow> fingerprint (replicate n c) = replicate 100 c @ show_nat n"
  by (simp add: fingerprint_def min_def)

lemma full_session_eq:
  "full_session =
     \<lparr>isCapturing = True, captureStartTime = Some 1737387045123,
      capturedText = map long_entry [0..<52],
      seenHashes = (\<lambda>i. replicate 100 97 @ show_nat (100000 - i)) ` {0..<52},
      activeTabId = Some 7, currentCaptureSize = 10397348\<rparr>"
proof -
  let ?es = "map long_entry [0..<52]"
  have fp: "map (\<lambda>e. fingerprint (entry_text e)) ?es
              = map (\<lambda>i. replicate 100 97 @ show_nat (100000 - i)) [0..<52]"
    by (simp add: long_entry_def fingerprint_replicate)
  have d: "distinct (map (\<lambda>e. fingerprint (entry_text e)) ?es)"
    unfolding fp by (simp add: upt_rec show_nat_eval)
  have sz: "sum_list (map (\<lambda>e. length (entry_text e) * 2) ?es) = 10397348"
    by (simp add: long_entry_def upt_rec)
  have "run (map (Submit clk_start (Some 7)) ?es) (empty_session, []) =
           (empty_session\<lparr>seenHashes := seenHashes empty_session \<union> (\<lambda>e. fingerprint (entry_text e)) ` set ?es,
              currentCaptureSize :=
                currentCaptureSize empty_session + sum_list (map (\<lambda>e. length (entry_text e) * 2) ?es),
              capturedText := capturedText empty_session @ ?es\<rparr>, [])"
    by (rule run_admits)
       (use d sz in \<open>simp_all add: empty_session_eq MAX_CAPTURE_SIZE_def del: map_map\<close>)
  moreover have "(\<lambda>e. fingerprint (entry_text e)) ` set ?es
       = (\<lambda>i. replicate 100 97 @ show_nat (100000 - i)) ` {0..<52}"
    using arg_cong [OF fp, of set] by (simp add: image_image del: upt_Suc)
  moreover have "sum_list (map (\<lambda>i. length (entry_text (long_entry i)) * 2) [0..<52]) = 10397348"
    by (simp add: long_entry_def upt_rec)
  ultimately show ?thesis
    by (simp add: full_session_def empty_session_eq o_def)
qed

lemma full_session_consistent: "consistent full_session"
proof -
  have "consistent empty_session"
    unfolding empty_session_def
    by (rule consistent_startCapture) (rule consistent_initial)
  then show ?thesis
    unfolding full_session_def using consistent_run [of "(empty_session, [])"] by simp
qed

lemma late_entry_unseen: "fingerprint (entry_text late_entry) \<notin> seenHashes full_session"
  by (auto simp: full_session_eq late_entry_def fingerprint_replicate)

lemma late_not_among_long:
  "filter (\<lambda>x. fingerprint (entry_text x) = fingerprint (entry_text late_entry))
     (map long_entry [0..<52]) = []"
  by (auto simp: filter_empty_conv long_entry_def late_entry_def fingerprint_replicate)

lemma size_limit_reason_eq: "size_limit_reason = js ''Size limit reached (10MB)''"
  by (simp add: size_limit_reason_def MAX_CAPTURE_SIZE_def show_nat_eval js_def)

lemma full_session_late_step:
  "step (Submit clk_stop (Some 7) late_entry) (full_session, []) =
     (full_session\<lparr>seenHashes :=
        insert (fingerprint (entry_text late_entry)) (seenHashes full_session)\<rparr>,
      [AfterAutoStopNotice])"
proof -
  have "isCapturing full_session" "activeTabId full_session = Some 7"
    "MAX_CAPTURE_SIZE < currentCaptureSize full_session + length (entry_text late_entry) * 2"
    by (simp_all add: full_session_eq late_entry_def MAX_CAPTURE_SIZE_def)
  then show ?thesis
    using late_entry_unseen by (simp add: captureText_def Let_def autoStopCapture_def)
qed

subsection \<open>The budget\<close>

lemma settle_autoStopCapture:
  assumes "isCapturing s" and "captureStartTime s = Some t0"
    and "formatOutput (now clk) s = Inr content"
  shows "settle clk (autoStopCapture size_limit_reason clk s) =
           (reset_state (s\<lparr>isCapturing := False\<rparr>),
            auto_stop_notice s @ StateChanged False # stop_notices s
            @ (if capturedText s = [] then [] else [Download content (generateFilename clk) True]))"
proof (cases "\<exists>t. activeTabId s = Some t \<and> t \<noteq> 0")
  case True
  then obtain t where t: "activeTabId s = Some t" "t \<noteq> 0" by blast
  have "drain clk s [AfterAutoStopNotice] = settle clk (stopCapture clk s)"
    by (simp add: settle_def resume_def split: prod.splits)
  with t settle_stopCapture [OF assms] show ?thesis
    by (simp add: settle_def autoStopCapture_def auto_stop_notice_def)
next
  case False
  then have "autoStopCapture size_limit_reason clk s = stopCapture clk s"
    and "auto_stop_notice s = []"
    by (auto simp: autoStopCapture_def auto_stop_notice_def split: option.splits)
  with settle_stopCapture [OF assms] show ?thesis by simp
qed

text \<open>
  Claim C1.  While the aggregator records, a submission from the active tab whose
  fingerprint is new and whose cost of 2 bytes per character would take the running
  size above the budget of 10 MB is not admitted: the handler calls \<open>autoStopCapture\<close>,
  and the entry is not in the entry list when the handler returns.  With the
  continuations run, the tab is told of the auto-stop, the session is stopped and
  reset, and the document delivered (if the session held entries) is the one of the
  entries held before, without the candidate.
\<close>

theorem budget_enforcement:
  assumes rec: "isCapturing s" and tab: "activeTabId s = Some tab" and con: "consistent s"
    and new: "fingerprint (entry_text e) \<notin> seenHashes s"
    and over: "currentCaptureSize s + length (entry_text e) * 2 > MAX_CAPTURE_SIZE"
  shows "\<exists>content.
           formatOutput (now clk) s = Inr content
         \<and> captureText clk (Some tab) e s =
             autoStopCapture size_limit_reason clk
               (s\<lparr>seenHashes := insert (fingerprint (entry_text e)) (seenHashes s)\<rparr>)
         \<and> e \<notin> set (capturedText (fst (captureText clk (Some tab) e s)))
         \<and> settle clk (captureText clk (Some tab) e s) =
             (reset_state (s\<lparr>isCapturing := False\<rparr>),
              auto_stop_notice s @ StateChanged False # stop_notices s
              @ (if capturedText s = [] then []
                 else [Download content (generateFilename clk) True]))"
proof -
  let ?s1 = "s\<lparr>seenHashes := insert (fingerprint (entry_text e)) (seenHashes s)\<rparr>"
  from con rec obtain t0 where t0: "captureStartTime s = Some t0"
    by (auto simp: consistent_def)
  then obtain content where content: "formatOutput (now clk) s = Inr content"
    using formatOutput_started by blast
  have eq: "captureText clk (Some tab) e s = autoStopCapture size_limit_reason clk ?s1"
    using rec tab new over by (simp add: captureText_def Let_def)
  have "consistent (fst (captureText clk (Some tab) e s))"
    by (rule consistent_captureText [OF con])
  have same: "capturedText (fst (autoStopCapture size_limit_reason clk ?s1)) = capturedText s
              \<or> capturedText (fst (autoStopCapture size_limit_reason clk ?s1)) = []"
    by (auto simp: autoStopCapture_def stopCapture_def stopCapture_finish_def reset_state_def
        Let_def split: option.splits sum.splits prod.splits)
  have notin: "e \<notin> set (capturedText (fst (captureText clk (Some tab) e s)))"
    using same consistent_unseen_not_retained [OF con new] eq by auto
  have "settle clk (autoStopCapture size_limit_reason clk ?s1) =
           (reset_state (?s1\<lparr>isCapturing := False\<rparr>),
            auto_stop_notice ?s1 @ StateChanged False # stop_notices ?s1
            @ (if capturedText ?s1 = [] then [] else [Download content (generateFilename clk) True]))"
    by (rule settle_autoStopCapture) (use rec t0 content in simp_all)
  then have "settle clk (captureText clk (Some tab) e s) =
             (reset_state (s\<lparr>isCapturing := False\<rparr>),
              auto_stop_notice s @ StateChanged False # stop_notices s
              @ (if capturedText s = [] then []
                 else [Download content (generateFilename clk) True]))"
    using eq by (simp add: reset_state_def auto_stop_notice_def stop_notices_def)
  with content eq notin show ?thesis by blast
qed

text \<open>
  The entry of 100000 bytes that arrives 88412 bytes below the budget: the handler
  leaves the 52 entries as they are and sends the notice of the auto-stop, which names
  the limit of 10MB.
\<close>

theorem budget_enforcement_witness:
  "isCapturing full_session \<and> activeTabId full_session = Some 7 \<and> consistent full_session
   \<and> fingerprint (entry_text late_entry) \<notin> seenHashes full_session
   \<and> MAX_CAPTURE_SIZE < currentCaptureSize full_session + length (entry_text late_entry) * 2
   \<and> captureText clk_stop (Some 7) late_entry full_session =
       (full_session\<lparr>seenHashes :=
          insert (fingerprint (entry_text late_entry)) (seenHashes full_session)\<rparr>,
        [TabsSendMessage 7 (AutoStopped (js ''Size limit reached (10MB)''))],
        [AfterAutoStopNotice])
   \<and> late_entry \<notin> set (capturedText (fst (captureText clk_stop (Some 7) late_entry full_session)))
   \<and> fst (settle clk_stop (captureText clk_stop (Some 7) late_entry full_session)) =
        \<lparr>isCapturing = False, captureStartTime = Some 1737387045123, capturedText = [],
         seenHashes = {}, activeTabId = None, currentCaptureSize = 0\<rparr>"
proof -
  have h1: "isCapturing full_session" and h2: "activeTabId full_session = Some 7"
    by (simp_all add: full_session_eq)
  have h5: "MAX_CAPTURE_SIZE < currentCaptureSize full_session + length (entry_text late_entry) * 2"
    by (simp add: full_session_eq late_entry_def MAX_CAPTURE_SIZE_def)
  from budget_enforcement [OF h1 h2 full_session_consistent late_entry_unseen h5, of clk_stop]
  obtain content where
    eq: "captureText clk_stop (Some 7) late_entry full_session =
           autoStopCapture size_limit_reason clk_stop
             (full_session\<lparr>seenHashes :=
                insert (fingerprint (entry_text late_entry)) (seenHashes full_session)\<rparr>)"
    and notin: "late_entry \<notin> set (capturedText (fst (captureText clk_stop (Some 7) late_entry full_session)))"
    and fin: "settle clk_stop (captureText clk_stop (Some 7) late_entry full_session) =
             (reset_state (full_session\<lparr>isCapturing := False\<rparr>),
              auto_stop_notice full_session @ StateChanged False # stop_notices full_session
              @ (if capturedText full_session = [] then []
                 else [Download content (generateFilename clk_stop) True]))"
    by blast
  have "autoStopCapture size_limit_reason clk_stop
             (full_session\<lparr>seenHashes :=
                insert (fingerprint (entry_text late_entry)) (seenHashes full_session)\<rparr>)
         = (full_session\<lparr>seenHashes :=
          insert (fingerprint (entry_text late_entry)) (seenHashes full_session)\<rparr>,
        [TabsSendMessage 7 (AutoStopped (js ''Size limit reached (10MB)''))],
        [AfterAutoStopNotice])"
    by (simp add: autoStopCapture_def h2 size_limit_reason_eq)
  moreover have "reset_state (full_session\<lparr>isCapturing := False\<rparr>) =
       \<lparr>isCapturing = False, captureStartTime = Some 1737387045123, capturedText = [],
         seenHashes = {}, activeTabId = None, currentCaptureSize = 0\<rparr>"
    by (simp add: reset_state_def full_session_eq)
  ultimately show ?thesis
    using h1 h2 h5 full_session_consistent late_entry_unseen eq notin fin by simp
qed

lemma captureText_seen:
  "isCapturing s \<Longrightarrow> activeTabId s = Some tab \<Longrightarrow> fingerprint (entry_text e) \<in> seenHashes s
   \<Longrightarrow> captureText clk (Some tab) e s = (s, [], [])"
  by (simp add: captureText_def)

text \<open>
  Claim C10.  A submission whose fingerprint is already in the index is discarded
  before the size is looked at: the handler changes nothing, calls nothing and leaves
  nothing pending, so no auto-stop follows, whatever the cost of the entry.
\<close>

theorem duplicate_bypasses_budget:
  assumes "isCapturing s" and "activeTabId s = Some tab"
    and "fingerprint (entry_text e) \<in> seenHashes s"
  shows "captureText clk (Some tab) e s = (s, [], [])
         \<and> settle clk (captureText clk (Some tab) e s) = (s, [])"
  using assms by (simp add: captureText_def settle_def)

text \<open>
  The first of the long entries, submitted again to the long session, would take the
  size above the budget if it were counted, and is discarded with no auto-stop.
\<close>

theorem duplicate_bypasses_budget_witness:
  "isCapturing full_session \<and> activeTabId full_session = Some 7
   \<and> fingerprint (entry_text (long_entry 0)) \<in> seenHashes full_session
   \<and> MAX_CAPTURE_SIZE < currentCaptureSize full_session + length (entry_text (long_entry 0)) * 2
   \<and> captureText clk_stop (Some 7) (long_entry 0) full_session = (full_session, [], [])
   \<and> settle clk_stop (captureText clk_stop (Some 7) (long_entry 0) full_session)
       = (full_session, [])"
proof -
  have h1: "isCapturing full_session" and h2: "activeTabId full_session = Some 7"
    by (simp_all add: full_session_eq)
  have h3: "fingerprint (entry_text (long_entry 0)) \<in> seenHashes full_session"
    by (simp add: full_session_eq long_entry_def fingerprint_replicate image_iff)
       (rule bexI [of _ 0], simp_all)
  have h4: "MAX_CAPTURE_SIZE < currentCaptureSize full_session + length (entry_text (long_entry 0)) * 2"
    by (simp add: full_session_eq long_entry_def MAX_CAPTURE_SIZE_def)
  from duplicate_bypasses_budget [OF h1 h2 h3, of clk_stop] h1 h2 h3 h4 show ?thesis
    by blast
qed

subsection \<open>The running size\<close>

lemma stopCapture_finish_cases:
  "fst (stopCapture_finish clk s) = reset_state s \<or> fst (stopCapture_finish clk s) = s"
  by (auto simp: stopCapture_finish_def split: sum.splits)

lemma stopCapture_shape:
  assumes "stopCapture clk s = (s', effs, ks)"
  shows "(\<not> isCapturing s \<and> s' = s \<and> ks = [])
       \<or> (isCapturing s \<and> (\<exists>t. activeTabId s = Some t \<and> t \<noteq> 0)
            \<and> s' = s\<lparr>isCapturing := False\<rparr> \<and> ks = [AfterStopNotice])
       \<or> (isCapturing s \<and> \<not> (\<exists>t. activeTabId s = Some t \<and> t \<noteq> 0) \<and> ks = []
            \<and> (s' = reset_state (s\<lparr>isCapturing := False\<rparr>) \<or> s' = s\<lparr>isCapturing := False\<rparr>))"
  using assms stopCapture_finish_cases [of clk "s\<lparr>isCapturing := False\<rparr>"]
  by (auto simp: stopCapture_def Let_def split: if_splits option.splits prod.splits)




subsection \<open>Deduplication\<close>

lemma second_submission_ignored:
  assumes fp: "fingerprint (entry_text e2) = fingerprint (entry_text e1)"
    and r: "captureText clk1 sender e1 s = (s1, effs, ks1)"
  shows "captureText clk2 sender e2 s1 = (s1, [], [])"
proof -
  let ?h = "fingerprint (entry_text e1)"
  let ?s1 = "s\<lparr>seenHashes := insert ?h (seenHashes s)\<rparr>"
  consider (idle) "\<not> isCapturing s"
    | (other) "isCapturing s" "sender = None \<or> sender \<noteq> activeTabId s"
    | (seen) "isCapturing s" "sender \<noteq> None" "sender = activeTabId s" "?h \<in> seenHashes s"
    | (over) "isCapturing s" "sender \<noteq> None" "sender = activeTabId s" "?h \<notin> seenHashes s"
        "currentCaptureSize s + length (entry_text e1) * 2 > MAX_CAPTURE_SIZE"
    | (fits) "isCapturing s" "sender \<noteq> None" "sender = activeTabId s" "?h \<notin> seenHashes s"
        "\<not> currentCaptureSize s + length (entry_text e1) * 2 > MAX_CAPTURE_SIZE"
    by blast
  then show ?thesis
  proof cases
    case idle
    with r have "s1 = s" by (simp add: captureText_def)
    with idle show ?thesis by (simp add: captureText_def)
  next
    case other
    with r have "s1 = s" by (auto simp: captureText_def)
    with other show ?thesis by (auto simp: captureText_def)
  next
    case seen
    with r have "s1 = s" by (auto simp: captureText_def Let_def)
    with seen fp show ?thesis by (auto simp: captureText_def Let_def)
  next
    case over
    with r have a: "autoStopCapture size_limit_reason clk1 ?s1 = (s1, effs, ks1)"
      by (auto simp: captureText_def Let_def)
    show ?thesis
    proof (cases "\<exists>t. activeTabId s = Some t \<and> t \<noteq> 0")
      case True
      with a have "s1 = ?s1"
        by (auto simp: autoStopCapture_def)
      with over fp show ?thesis
        by (auto simp: captureText_def Let_def)
    next
      case False
      with a have "stopCapture clk1 ?s1 = (s1, effs, ks1)"
        by (auto simp: autoStopCapture_def split: option.splits)
      from stopCapture_shape [OF this] over(1) have "\<not> isCapturing s1"
        by (auto simp: reset_state_def)
      then show ?thesis
        by (simp add: captureText_def)
    qed
  next
    case fits
    with r have "s1 = ?s1\<lparr>currentCaptureSize := currentCaptureSize s + length (entry_text e1) * 2,
                            capturedText := capturedText s @ [e1]\<rparr>"
      by (auto simp: captureText_def Let_def)
    with fits fp show ?thesis
      by (auto simp: captureText_def Let_def)
  qed
qed

text \<open>
  Claim C2, as the code has it.  Of two submissions with the same fingerprint from the
  same sender, the second changes nothing: neither the state nor what is pending.  When
  the aggregator records, the sender is the active tab, the fingerprint is new and the
  cost of the first entry fits the budget, the first entry is appended and is the one
  retained entry with that fingerprint.
\<close>

theorem dedup_idempotence:
  assumes fp: "fingerprint (entry_text e2) = fingerprint (entry_text e1)"
  shows "step (Submit clk2 sender e2) (step (Submit clk1 sender e1) (s, ks))
           = step (Submit clk1 sender e1) (s, ks)
       \<and> (consistent s \<and> isCapturing s \<and> sender = Some tab \<and> activeTabId s = Some tab
          \<and> fingerprint (entry_text e1) \<notin> seenHashes s
          \<and> currentCaptureSize s + length (entry_text e1) * 2 \<le> MAX_CAPTURE_SIZE
          \<longrightarrow> capturedText (fst (step (Submit clk2 sender e2)
                               (step (Submit clk1 sender e1) (s, ks))))
                = capturedText s @ [e1]
              \<and> filter (\<lambda>x. fingerprint (entry_text x) = fingerprint (entry_text e1))
                   (capturedText (fst (step (Submit clk2 sender e2)
                                        (step (Submit clk1 sender e1) (s, ks)))))
                = [e1])"
proof -
  obtain s1 effs ks1 where r: "captureText clk1 sender e1 s = (s1, effs, ks1)"
    by (cases "captureText clk1 sender e1 s") auto
  from second_submission_ignored [OF fp r]
  have idem: "step (Submit clk2 sender e2) (step (Submit clk1 sender e1) (s, ks))
           = step (Submit clk1 sender e1) (s, ks)"
    using r by simp
  have one: "capturedText s1 = capturedText s @ [e1]
       \<and> filter (\<lambda>x. fingerprint (entry_text x) = fingerprint (entry_text e1)) (capturedText s1)
           = [e1]"
    if con: "consistent s" and rec: "isCapturing s" and tab: "sender = Some tab" "activeTabId s = Some tab"
      and new: "fingerprint (entry_text e1) \<notin> seenHashes s"
      and fits: "currentCaptureSize s + length (entry_text e1) * 2 \<le> MAX_CAPTURE_SIZE"
  proof -
    from r rec tab new fits have s1: "capturedText s1 = capturedText s @ [e1]"
      by (auto simp: captureText_def Let_def)
    from con new have "\<forall>x \<in> set (capturedText s).
        fingerprint (entry_text x) \<noteq> fingerprint (entry_text e1)"
      by (auto simp: consistent_def)
    then have "filter (\<lambda>x. fingerprint (entry_text x) = fingerprint (entry_text e1))
                 (capturedText s) = []"
      by (simp add: filter_empty_conv)
    with s1 show ?thesis by simp
  qed
  from idem one r show ?thesis by auto
qed

text \<open>
  The paragraph sent by the top frame and again by a nested frame of tab 7: one entry.
\<close>

theorem dedup_idempotence_witness:
  "fingerprint (entry_text hello_frame_entry) = fingerprint (entry_text hello_entry)
   \<and> consistent empty_session \<and> isCapturing empty_session
   \<and> activeTabId empty_session = Some 7
   \<and> fingerprint (entry_text hello_entry) \<notin> seenHashes empty_session
   \<and> currentCaptureSize empty_session + length (entry_text hello_entry) * 2 \<le> MAX_CAPTURE_SIZE
   \<and> step (Submit clk_start (Some 7) hello_frame_entry)
         (step (Submit clk_start (Some 7) hello_entry) (empty_session, []))
       = step (Submit clk_start (Some 7) hello_entry) (empty_session, [])
   \<and> capturedText (fst (step (Submit clk_start (Some 7) hello_frame_entry)
                          (step (Submit clk_start (Some 7) hello_entry) (empty_session, []))))
       = [hello_entry]"
proof -
  have fp: "fingerprint (entry_text hello_frame_entry) = fingerprint (entry_text hello_entry)"
    by (simp add: hello_fingerprint)
  have con: "consistent empty_session"
    unfolding empty_session_def
    by (rule consistent_startCapture) (rule consistent_initial)
  have h: "isCapturing empty_session" "activeTabId empty_session = Some 7"
    "fingerprint (entry_text hello_entry) \<notin> seenHashes empty_session"
    "currentCaptureSize empty_session + length (entry_text hello_entry) * 2 \<le> MAX_CAPTURE_SIZE"
    by (simp_all add: empty_session_eq hello_entry_def MAX_CAPTURE_SIZE_def js_def)
  from dedup_idempotence [OF fp, of clk_start "Some 7" clk_start empty_session "[]" 7] con h
  have "step (Submit clk_start (Some 7) hello_frame_entry)
         (step (Submit clk_start (Some 7) hello_entry) (empty_session, []))
       = step (Submit clk_start (Some 7) hello_entry) (empty_session, [])"
    and "capturedText (fst (step (Submit clk_start (Some 7) hello_frame_entry)
                          (step (Submit clk_start (Some 7) hello_entry) (empty_session, []))))
       = capturedText empty_session @ [hello_entry]"
    by blast+
  with fp con h show ?thesis
    by (simp add: empty_session_eq)
qed

text \<open>
  Claim C2 as it is stated promises one retained entry for every entry submitted twice
  to a recording aggregator from the active tab.  The entry of 100000 bytes submitted
  twice to the long session is retained not once but never: the first submission
  exceeds the budget, the second is discarded as a duplicate while the aggregator still
  records, and when the pending auto-stop has run the list is empty.
\<close>

theorem dedup_counterexample:
  "isCapturing full_session \<and> activeTabId full_session = Some 7
   \<and> isCapturing
        (fst (run [Submit clk_stop (Some 7) late_entry, Submit clk_stop (Some 7) late_entry]
                (full_session, [])))
   \<and> filter (\<lambda>x. fingerprint (entry_text x) = fingerprint (entry_text late_entry))
        (capturedText
           (fst (run [Submit clk_stop (Some 7) late_entry, Submit clk_stop (Some 7) late_entry]
                   (full_session, [])))) = []
   \<and> capturedText
        (fst (run [Submit clk_stop (Some 7) late_entry, Submit clk_stop (Some 7) late_entry,
                   Resume clk_stop 0, Resume clk_stop 0]
                (full_session, []))) = []"
proof -
  let ?s1 = "full_session\<lparr>seenHashes :=
        insert (fingerprint (entry_text late_entry)) (seenHashes full_session)\<rparr>"
  let ?s2 = "?s1\<lparr>isCapturing := False\<rparr>"
  have h: "isCapturing full_session" "activeTabId full_session = Some 7"
    by (simp_all add: full_session_eq)
  have st1: "step (Submit clk_stop (Some 7) late_entry) (full_session, [])
               = (?s1, [AfterAutoStopNotice])"
    by (rule full_session_late_step)
  have st2: "step (Submit clk_stop (Some 7) late_entry) (?s1, [AfterAutoStopNotice])
               = (?s1, [AfterAutoStopNotice])"
    using h by (simp add: captureText_seen)
  have st3: "step (Resume clk_stop 0) (?s1, [AfterAutoStopNotice]) = (?s2, [AfterStopNotice])"
    using h by (simp add: resume_def stopCapture_def)
  have "fst (stopCapture_finish clk_stop ?s2) = reset_state ?s2"
    by (rule stopCapture_finish_resets [of _ 1737387045123]) (simp add: full_session_eq)
  then have st4: "capturedText (fst (step (Resume clk_stop 0) (?s2, [AfterStopNotice]))) = []"
    by (auto simp: resume_def reset_state_def split: prod.splits)
  have two: "run [Submit clk_stop (Some 7) late_entry, Submit clk_stop (Some 7) late_entry]
               (full_session, []) = (?s1, [AfterAutoStopNotice])"
    by (simp only: run.simps st1 st2)
  have four: "capturedText
        (fst (run [Submit clk_stop (Some 7) late_entry, Submit clk_stop (Some 7) late_entry,
                   Resume clk_stop 0, Resume clk_stop 0]
                (full_session, []))) = []"
    by (simp only: run.simps st1 st2 st3 st4)
  have list: "capturedText ?s1 = map long_entry [0..<52]"
    by (simp add: full_session_eq)
  have "isCapturing ?s1"
    using h by simp
  with h two list late_not_among_long four show ?thesis
    by simp
qed

end
